theory Spec2Isabelle
  imports Main "HOL-Library.Char_ord" "HOL-Library.AList"
begin

section \<open>Text\<close>

text \<open>
  A Python \<open>str\<close> is modelled as a \<open>string\<close>: each \<open>char\<close> stands for one code point
  below 256, so \<open>length\<close> counts what \<open>len\<close> counts. The character classes and case
  mappings below are those of Python 3 on that range.
\<close>

definition ident_char :: "char \<Rightarrow> bool" where
  \<comment> \<open>the character class \<open>[a-zA-Z0-9_.]\<close> of \<open>sanitize_identifier\<close>\<close>
  "ident_char c \<longleftrightarrow>
     (CHR ''a'' \<le> c \<and> c \<le> CHR ''z'') \<or> (CHR ''A'' \<le> c \<and> c \<le> CHR ''Z'') \<or>
     (CHR ''0'' \<le> c \<and> c \<le> CHR ''9'') \<or> c = CHR ''_'' \<or> c = CHR ''.''"

definition py_isdigit :: "char \<Rightarrow> bool" where
  \<comment> \<open>\<open>str.isdigit\<close> on one character: the ASCII digits and the superscripts 2, 3, 1\<close>
  "py_isdigit c \<longleftrightarrow>
     (CHR ''0'' \<le> c \<and> c \<le> CHR ''9'') \<or> c = CHR 0xB2 \<or> c = CHR 0xB3 \<or> c = CHR 0xB9"

definition py_isspace :: "char \<Rightarrow> bool" where
  \<comment> \<open>\<open>str.isspace\<close> on one character, which is also the class \<open>\s\<close> of \<open>re\<close>\<close>
  "py_isspace c \<longleftrightarrow>
     (CHR 0x09 \<le> c \<and> c \<le> CHR 0x0D) \<or> (CHR 0x1C \<le> c \<and> c \<le> CHR 0x20) \<or>
     c = CHR 0x85 \<or> c = CHR 0xA0"

definition py_isword :: "char \<Rightarrow> bool" where
  \<comment> \<open>the class \<open>\w\<close> of \<open>re\<close> on \<open>str\<close> patterns: alphanumeric or underscore\<close>
  "py_isword c \<longleftrightarrow>
     (CHR ''0'' \<le> c \<and> c \<le> CHR ''9'') \<or> (CHR ''A'' \<le> c \<and> c \<le> CHR ''Z'') \<or>
     c = CHR ''_'' \<or> (CHR ''a'' \<le> c \<and> c \<le> CHR ''z'') \<or>
     c = CHR 0xAA \<or> c = CHR 0xB2 \<or> c = CHR 0xB3 \<or> c = CHR 0xB5 \<or>
     c = CHR 0xB9 \<or> c = CHR 0xBA \<or> (CHR 0xBC \<le> c \<and> c \<le> CHR 0xBE) \<or>
     (CHR 0xC0 \<le> c \<and> c \<le> CHR 0xD6) \<or> (CHR 0xD8 \<le> c \<and> c \<le> CHR 0xF6) \<or>
     CHR 0xF8 \<le> c"

definition py_lower_char :: "char \<Rightarrow> char" where
  \<comment> \<open>\<open>str.lower\<close> on one character: the upper-case letters move up by 32, which for
      these ranges is setting the bit of value 32\<close>
  "py_lower_char c =
     (if (CHR ''A'' \<le> c \<and> c \<le> CHR ''Z'') \<or> (CHR 0xC0 \<le> c \<and> c \<le> CHR 0xD6) \<or>
         (CHR 0xD8 \<le> c \<and> c \<le> CHR 0xDE)
      then (case c of Char b0 b1 b2 b3 b4 b5 b6 b7 \<Rightarrow> Char b0 b1 b2 b3 b4 True b6 b7)
      else c)"

definition py_lower :: "string \<Rightarrow> string" where
  "py_lower s = map py_lower_char s"

definition py_upper_char :: "char \<Rightarrow> nat list" where
  \<comment> \<open>\<open>str.upper\<close> on one character, as code points: three characters of the range
      leave it (the micro sign, the sharp s, which becomes two letters, and y with diaeresis)\<close>
  "py_upper_char c =
     (if (CHR ''a'' \<le> c \<and> c \<le> CHR ''z'') \<or> (CHR 0xE0 \<le> c \<and> c \<le> CHR 0xF6) \<or>
         (CHR 0xF8 \<le> c \<and> c \<le> CHR 0xFE)
      then [of_char c - 32]
      else if c = CHR 0xB5 then [0x39C]
      else if c = CHR 0xDF then [0x53, 0x53]
      else if c = CHR 0xFF then [0x178]
      else [of_char c])"

definition py_upper :: "string \<Rightarrow> nat list" where
  "py_upper s = concat (map py_upper_char s)"

definition py_strip :: "string \<Rightarrow> string" where
  \<comment> \<open>\<open>str.strip()\<close>: white space removed at both ends\<close>
  "py_strip s = rev (dropWhile py_isspace (rev (dropWhile py_isspace s)))"

fun startswith :: "'a list \<Rightarrow> 'a list \<Rightarrow> bool" where
  "startswith s [] = True"
| "startswith [] (p # ps) = False"
| "startswith (c # cs) (p # ps) = (c = p \<and> startswith cs ps)"

fun py_in :: "'a list \<Rightarrow> 'a list \<Rightarrow> bool" where
  \<comment> \<open>\<open>sub in s\<close> on strings: \<open>sub\<close> occurs in \<open>s\<close> as a contiguous run\<close>
  "py_in sub [] = (sub = [])"
| "py_in sub (c # cs) = (startswith (c # cs) sub \<or> py_in sub cs)"

section \<open>Regular expressions\<close>

text \<open>
  The fragment of \<open>re\<close> that the two pattern tables of \<open>SecurityManager\<close> use, compiled
  with \<open>re.IGNORECASE\<close>: literals, \<open>\s\<close>, \<open>\w\<close>, \<open>\b\<close>, sequence, alternation and
  repetition. A position in the searched text is the character before it (if any) and
  the text that remains; \<open>ends r p\<close> lists the positions where a match of \<open>r\<close> that starts
  at \<open>p\<close> can end. \<open>search\<close> is \<open>pattern.search(text) is not None\<close>.
\<close>

datatype rx = Lit char | Space | WordCh | WordB | Eps | Seq rx rx | Alt rx rx | Star rx

type_synonym pos = "char option \<times> string"

definition at_word_boundary :: "pos \<Rightarrow> bool" where
  "at_word_boundary p \<longleftrightarrow>
     (case fst p of None \<Rightarrow> False | Some c \<Rightarrow> py_isword c) \<noteq>
     (case snd p of [] \<Rightarrow> False | c # _ \<Rightarrow> py_isword c)"

definition step_char :: "(char \<Rightarrow> bool) \<Rightarrow> pos \<Rightarrow> pos list" where
  "step_char ok p = (case snd p of [] \<Rightarrow> [] | c # cs \<Rightarrow> if ok c then [(Some c, cs)] else [])"

primrec star_ends :: "(pos \<Rightarrow> pos list) \<Rightarrow> nat \<Rightarrow> pos list \<Rightarrow> pos list" where
  \<comment> \<open>the positions reached from \<open>ps\<close> by rounds of \<open>f\<close>, fewer than \<open>n\<close> of them; a round
      that consumes nothing reaches nothing new, so one round for each character that
      remains is enough\<close>
  "star_ends f 0 ps = []"
| "star_ends f (Suc n) ps = (if ps = [] then [] else ps @ star_ends f n (concat (map f ps)))"

primrec ends :: "rx \<Rightarrow> pos \<Rightarrow> pos list" where
  "ends (Lit a) p = step_char (\<lambda>c. py_lower_char c = py_lower_char a) p"
| "ends Space p = step_char py_isspace p"
| "ends WordCh p = step_char py_isword p"
| "ends WordB p = (if at_word_boundary p then [p] else [])"
| "ends Eps p = [p]"
| "ends (Seq r1 r2) p = concat (map (ends r2) (ends r1 p))"
| "ends (Alt r1 r2) p = ends r1 p @ ends r2 p"
| "ends (Star r) p = star_ends (ends r) (Suc (length (snd p))) [p]"

fun search_from :: "rx \<Rightarrow> char option \<Rightarrow> string \<Rightarrow> bool" where
  "search_from r prev [] \<longleftrightarrow> ends r (prev, []) \<noteq> []"
| "search_from r prev (c # cs) \<longleftrightarrow> ends r (prev, c # cs) \<noteq> [] \<or> search_from r (Some c) cs"

definition search :: "rx \<Rightarrow> string \<Rightarrow> bool" where
  "search r s = search_from r None s"

definition lits :: "string \<Rightarrow> rx" where
  "lits s = foldr (\<lambda>c r. Seq (Lit c) r) s Eps"

definition seqs :: "rx list \<Rightarrow> rx" where
  "seqs rs = foldr Seq rs Eps"

definition Some_rx :: "rx \<Rightarrow> rx" where
  \<comment> \<open>\<open>r+\<close>\<close>
  "Some_rx r = Seq r (Star r)"

definition Opt_rx :: "rx \<Rightarrow> rx" where
  \<comment> \<open>\<open>r?\<close>\<close>
  "Opt_rx r = Alt r Eps"

text \<open>
  What a match is: \<open>matches r p q\<close> when \<open>r\<close> matches the text between the positions \<open>p\<close>
  and \<open>q\<close>. The section on the matcher below proves that \<open>ends\<close> lists exactly these
  \<open>q\<close>, and that \<open>search\<close> answers whether a match starts anywhere in the text.
\<close>

inductive matches :: "rx \<Rightarrow> pos \<Rightarrow> pos \<Rightarrow> bool" where
  m_Lit: "py_lower_char c = py_lower_char a \<Longrightarrow> matches (Lit a) (prev, c # cs) (Some c, cs)"
| m_Space: "py_isspace c \<Longrightarrow> matches Space (prev, c # cs) (Some c, cs)"
| m_WordCh: "py_isword c \<Longrightarrow> matches WordCh (prev, c # cs) (Some c, cs)"
| m_WordB: "at_word_boundary p \<Longrightarrow> matches WordB p p"
| m_Eps: "matches Eps p p"
| m_Seq: "matches r1 p q \<Longrightarrow> matches r2 q u \<Longrightarrow> matches (Seq r1 r2) p u"
| m_Alt1: "matches r1 p q \<Longrightarrow> matches (Alt r1 r2) p q"
| m_Alt2: "matches r2 p q \<Longrightarrow> matches (Alt r1 r2) p q"
| m_Star0: "matches (Star r) p p"
| m_Star1: "matches r p q \<Longrightarrow> matches (Star r) q u \<Longrightarrow> matches (Star r) p u"

section \<open>Security manager\<close>

subsection \<open>\<open>SecurityConfig\<close>\<close>

record SecurityConfig =
  read_only :: bool
  allow_ddl :: bool
  allow_dml :: bool
  blocked_keywords :: "string list"
  allowed_schemas :: "string list option"
  blocked_tables :: "string list"
  sensitive_columns :: "string list"
  max_query_length :: int
  max_rows_returned :: int

definition SecurityConfig_default :: "bool \<Rightarrow> SecurityConfig" where
  \<comment> \<open>\<open>SecurityConfig(read_only=ro)\<close>: every other field at its default\<close>
  "SecurityConfig_default ro =
     \<lparr> read_only = ro, allow_ddl = False, allow_dml = False,
       blocked_keywords =
         [''DROP'', ''DELETE'', ''UPDATE'', ''INSERT'', ''ALTER'', ''CREATE'',
          ''TRUNCATE'', ''GRANT'', ''REVOKE'', ''EXEC'', ''EXECUTE'',
          ''xp_'', ''sp_'', ''--'', '';--'', ''/*'', ''*/''],
       allowed_schemas = None,
       blocked_tables = [],
       sensitive_columns =
         [''password'', ''pwd'', ''secret'', ''token'', ''api_key'',
          ''ssn'', ''social_security'', ''credit_card'', ''card_number''],
       max_query_length = 10000,
       max_rows_returned = 10000 \<rparr>"

subsection \<open>The pattern tables\<close>

definition OBJECT_KINDS :: rx where
  \<comment> \<open>\<open>(TABLE|DATABASE|INDEX|VIEW|SCHEMA)\<close>\<close>
  "OBJECT_KINDS =
     Alt (lits ''TABLE'') (Alt (lits ''DATABASE'') (Alt (lits ''INDEX'')
       (Alt (lits ''VIEW'') (lits ''SCHEMA''))))"

definition WRITE_PATTERNS :: "rx list" where
  "WRITE_PATTERNS =
     [seqs [WordB, lits ''INSERT'', Some_rx Space, lits ''INTO'', WordB],
      seqs [WordB, lits ''UPDATE'', Some_rx Space, Some_rx WordCh, Some_rx Space,
            lits ''SET'', WordB],
      seqs [WordB, lits ''DELETE'', Some_rx Space, lits ''FROM'', WordB],
      seqs [WordB, lits ''DROP'', Some_rx Space, OBJECT_KINDS, WordB],
      seqs [WordB, lits ''TRUNCATE'', Some_rx Space, lits ''TABLE'', WordB],
      seqs [WordB, lits ''ALTER'', Some_rx Space, OBJECT_KINDS, WordB],
      seqs [WordB, lits ''CREATE'', Some_rx Space, OBJECT_KINDS, WordB],
      seqs [WordB, lits ''GRANT'', WordB],
      seqs [WordB, lits ''REVOKE'', WordB],
      seqs [WordB, lits ''EXEC'', Opt_rx (lits ''UTE''), Some_rx Space]]"

definition INJECTION_PATTERNS :: "rx list" where
  "INJECTION_PATTERNS =
     [seqs [lits '';'', Star Space, lits ''--''],
      seqs [Lit (CHR 0x27), Star Space, lits ''OR'', Some_rx Space, Lit (CHR 0x27)],
      seqs [Lit (CHR 0x27), Star Space, lits ''OR'', Some_rx Space, lits ''1'', Star Space,
            lits ''='', Star Space, lits ''1''],
      seqs [lits ''UNION'', Some_rx Space, lits ''SELECT''],
      seqs [lits ''INTO'', Some_rx Space, lits ''OUTFILE''],
      lits ''LOAD_FILE'',
      seqs [lits ''BENCHMARK'', Star Space, lits ''(''],
      seqs [lits ''SLEEP'', Star Space, lits ''(''],
      seqs [lits ''WAITFOR'', Some_rx Space, lits ''DELAY''],
      lits ''xp_cmdshell'',
      lits ''sp_executesql'']"

definition whole_word :: "string \<Rightarrow> rx" where
  \<comment> \<open>the pattern \<open>rf"\b{re.escape(table)}\b"\<close> of the blocked-table check\<close>
  "whole_word w = seqs [WordB, lits w, WordB]"

subsection \<open>\<open>SecurityManager.validate_query\<close>\<close>

text \<open>
  The method returns a pair \<open>(is_valid, error_message)\<close>. The message texts are kept as a
  datatype, one constructor for each text, with the value that the text interpolates.
\<close>

datatype message =
    Empty_query_provided
  | Query_exceeds_maximum_length int
  | Write_operations_not_allowed
  | Potentially_dangerous_patterns
  | Contains_blocked_keyword string
  | Table_not_allowed string

definition validate_query :: "SecurityConfig \<Rightarrow> string \<Rightarrow> bool \<times> message option" where
  "validate_query config query =
     (if query = [] \<or> py_strip query = [] then (False, Some Empty_query_provided)
      else if int (length query) > max_query_length config
        then (False, Some (Query_exceeds_maximum_length (max_query_length config)))
      else if read_only config \<and> list_ex (\<lambda>pattern. search pattern query) WRITE_PATTERNS
        then (False, Some Write_operations_not_allowed)
      else if list_ex (\<lambda>pattern. search pattern query) INJECTION_PATTERNS
        then (False, Some Potentially_dangerous_patterns)
      else
        (let query_upper = py_upper query
         in case find (\<lambda>keyword. py_in (py_upper keyword) query_upper)
                   (blocked_keywords config) of
              Some keyword \<Rightarrow> (False, Some (Contains_blocked_keyword keyword))
            | None \<Rightarrow>
               (case find (\<lambda>table. search (whole_word table) query) (blocked_tables config) of
                  Some table \<Rightarrow> (False, Some (Table_not_allowed table))
                | None \<Rightarrow> (True, None))))"

subsection \<open>\<open>SecurityManager.sanitize_identifier\<close>\<close>

definition sanitize_identifier :: "string \<Rightarrow> string" where
  "sanitize_identifier identifier =
     (let sanitized = filter ident_char identifier
      in if sanitized \<noteq> [] \<and> py_isdigit (hd sanitized) then CHR ''_'' # sanitized
         else sanitized)"

subsection \<open>\<open>SecurityManager.mask_sensitive_data\<close>\<close>

text \<open>
  A value of a result row is \<open>None\<close>, a \<open>str\<close>, or anything else. A row is a \<open>dict\<close>: an
  association list in insertion order; \<open>masked[key] = v\<close> is \<open>AList.update\<close>, which
  replaces the value of a key that is present and appends a new key at the end. The
  parameter \<open>columns\<close> of the method is never read and is left out.
\<close>

datatype 'a pyvalue = PyNone | PyStr string | PyOther 'a

definition mask_text :: "string \<Rightarrow> string" where
  \<comment> \<open>\<open>value[:2] + '*' * (len(value) - 4) + value[-2:]\<close>\<close>
  "mask_text v = take 2 v @ replicate (length v - 4) (CHR ''*'') @ drop (length v - 2) v"

definition mask_entry :: "string list \<Rightarrow> string \<Rightarrow> 'a pyvalue \<Rightarrow> 'a pyvalue" where
  \<comment> \<open>the body of the loop: the value stored under \<open>key\<close>\<close>
  "mask_entry sensitive_cols key val =
     (let key_lower = py_lower key;
          should_mask = list_ex (\<lambda>sensitive. py_in sensitive key_lower) sensitive_cols
      in if should_mask \<and> val \<noteq> PyNone
         then (case val of
                 PyStr v \<Rightarrow> if length v > 4 then PyStr (mask_text v) else PyStr ''****''
               | _ \<Rightarrow> PyStr ''****'')
         else val)"

definition mask_sensitive_data ::
  "SecurityConfig \<Rightarrow> (string \<times> 'a pyvalue) list \<Rightarrow> (string \<times> 'a pyvalue) list" where
  "mask_sensitive_data config data =
     (let sensitive_cols = map py_lower (sensitive_columns config)
      in fold (\<lambda>(key, val) masked. AList.update key (mask_entry sensitive_cols key val) masked)
           data [])"

section \<open>Validation and masking as the specification words them\<close>

datatype RejectReason =
    EmptyRequest | TooLong | WriteInReadOnlyMode | SuspiciousPattern
  | BlockedKeyword | BlockedResource

datatype ValidationVerdict = Accepted | Rejected RejectReason

fun reason_of :: "message \<Rightarrow> RejectReason" where
  "reason_of Empty_query_provided = EmptyRequest"
| "reason_of (Query_exceeds_maximum_length n) = TooLong"
| "reason_of Write_operations_not_allowed = WriteInReadOnlyMode"
| "reason_of Potentially_dangerous_patterns = SuspiciousPattern"
| "reason_of (Contains_blocked_keyword k) = BlockedKeyword"
| "reason_of (Table_not_allowed t) = BlockedResource"

definition verdict_of :: "bool \<times> message option \<Rightarrow> ValidationVerdict" where
  "verdict_of r = (case snd r of None \<Rightarrow> Accepted | Some m \<Rightarrow> Rejected (reason_of m))"

definition Validate_rules :: "SecurityConfig \<Rightarrow> string \<Rightarrow> (bool \<times> ValidationVerdict) list" where
  \<comment> \<open>the rules 1 to 7 of the pipeline, in order: when a rule applies, and its verdict\<close>
  "Validate_rules policy text =
     [(list_all py_isspace text, Rejected EmptyRequest),
      (int (length text) > max_query_length policy, Rejected TooLong),
      (read_only policy \<and> (\<exists>p \<in> set WRITE_PATTERNS. search p text),
         Rejected WriteInReadOnlyMode),
      (\<exists>p \<in> set INJECTION_PATTERNS. search p text, Rejected SuspiciousPattern),
      (\<exists>k \<in> set (blocked_keywords policy). py_in (py_upper k) (py_upper text),
         Rejected BlockedKeyword),
      (\<exists>t \<in> set (blocked_tables policy). search (whole_word t) text,
         Rejected BlockedResource),
      (True, Accepted)]"

definition Validate :: "SecurityConfig \<Rightarrow> string \<Rightarrow> ValidationVerdict" where
  \<comment> \<open>the first rule that applies gives the verdict\<close>
  "Validate policy text =
     (case find fst (Validate_rules policy text) of
        Some rule \<Rightarrow> snd rule
      | None \<Rightarrow> Accepted)"

definition two_mask_two :: "string \<Rightarrow> string" where
  \<comment> \<open>the first two characters, the mask character for the interior, the last two\<close>
  "two_mask_two v = take 2 v @ replicate (length v - 4) (CHR ''*'') @ rev (take 2 (rev v))"

definition Mask_field :: "string list \<Rightarrow> string \<Rightarrow> 'a pyvalue \<Rightarrow> 'a pyvalue" where
  "Mask_field sensitiveFieldNames name val =
     (if (\<exists>s \<in> set sensitiveFieldNames. py_in (py_lower s) (py_lower name)) \<and> val \<noteq> PyNone
      then (case val of
              PyStr v \<Rightarrow> if length v > 4 then PyStr (two_mask_two v) else PyStr ''****''
            | _ \<Rightarrow> PyStr ''****'')
      else val)"

definition Mask :: "string list \<Rightarrow> (string \<times> 'a pyvalue) list \<Rightarrow> (string \<times> 'a pyvalue) list" where
  "Mask sensitiveFieldNames row =
     map (\<lambda>(name, val). (name, Mask_field sensitiveFieldNames name val)) row"

section \<open>Connection pool\<close>

subsection \<open>\<open>PoolConfig\<close>\<close>

type_synonym conn = nat

record PoolConfig =
  min_size :: int
  max_size :: int
  max_idle_time_seconds :: int
  connection_timeout_seconds :: int
  health_check_interval_seconds :: int
  recycle_connections_seconds :: int

datatype pool_error = ValidationError | ConnectionFailed | PoolExhausted | LoggingTypeError

definition PoolConfig_init ::
  "int \<Rightarrow> int \<Rightarrow> int \<Rightarrow> int \<Rightarrow> int \<Rightarrow> int \<Rightarrow> pool_error + PoolConfig" where
  \<comment> \<open>the constructor with its field validation: \<open>min_size\<close> has \<open>ge=1, le=10\<close> and
      \<open>max_size\<close> has \<open>ge=1, le=50\<close>; the other fields are unconstrained\<close>
  "PoolConfig_init mn mx idle tmo hc rc =
     (if 1 \<le> mn \<and> mn \<le> 10 \<and> 1 \<le> mx \<and> mx \<le> 50
      then Inr \<lparr> min_size = mn, max_size = mx, max_idle_time_seconds = idle,
                 connection_timeout_seconds = tmo, health_check_interval_seconds = hc,
                 recycle_connections_seconds = rc \<rparr>
      else Inl ValidationError)"

subsection \<open>State\<close>

text \<open>
  A connection handle is a number. Times are microseconds. Besides the fields of
  \<open>ConnectionPoolManager\<close> the state holds \<open>checked_out\<close>, the wrappers that callers hold
  between the \<open>yield\<close> of \<open>acquire\<close> and its \<open>finally\<close>, and \<open>closed_log\<close>, the handles
  passed to \<open>_close_connection\<close> so far.
\<close>

record PooledConnection =
  connection :: conn
  created_at :: int
  last_used_at :: int
  use_count :: int
  is_healthy :: bool

datatype task = Running | Cancelled

record pool =
  config :: PoolConfig
  pool_queue :: "PooledConnection list"
  active_connections :: int
  health_check_task :: "task option"
  checked_out :: "PooledConnection list"
  closed_log :: "conn list"

text \<open>
  What one operation meets outside the pool: the outcome of the call of
  \<open>_create_connection\<close> at each place of the operation where it is called (\<open>None\<close> when
  it raises), the clock reading at each place where \<open>datetime.utcnow()\<close> is read, the
  answer of \<open>_is_connection_healthy\<close>, whether \<open>asyncio.wait_for\<close> gave up on the queue
  although a wrapper was there (a timeout of 0 or less, a wrapper put back just after
  the deadline), and whether the logger of the module is enabled for \<open>INFO\<close>.
  \<open>_close_connection\<close> and \<open>_is_connection_healthy\<close> do not raise: every pool of the
  repository catches all exceptions inside them.

  The logger is \<open>logging.getLogger(__name__)\<close> of the standard library, and the two
  \<open>info\<close> calls of \<open>initialize\<close> pass keyword fields (\<open>min_size=\<close>, \<open>max_size=\<close>,
  \<open>active_connections=\<close>). When the logger is enabled for \<open>INFO\<close> such a call raises
  \<open>TypeError\<close>; when it is not, the call returns at once. The other logging calls of the
  pool pass a message only and have no effect on the state.
\<close>

record env =
  create_connection :: "nat \<Rightarrow> conn option"
  utcnow :: "nat \<Rightarrow> int"
  is_connection_healthy :: "conn \<Rightarrow> bool"
  timed_out :: bool
  info_enabled :: bool

text \<open>
  An operation returns, raises, or never completes: \<open>await self._pool.put(pooled)\<close> on a
  full queue waits for a consumer, and in a run of one operation after the other there
  is none.
\<close>

datatype outcome = Returned pool | Raised pool_error pool | Blocked pool

fun state_of :: "outcome \<Rightarrow> pool" where
  "state_of (Returned s) = s"
| "state_of (Raised err s) = s"
| "state_of (Blocked s) = s"

definition ConnectionPoolManager_init :: "PoolConfig \<Rightarrow> pool" where
  "ConnectionPoolManager_init cfg =
     \<lparr> config = cfg, pool_queue = [], active_connections = 0, health_check_task = None,
       checked_out = [], closed_log = [] \<rparr>"

definition new_pooled :: "conn \<Rightarrow> int \<Rightarrow> int \<Rightarrow> PooledConnection" where
  "new_pooled conn t1 t2 =
     \<lparr> connection = conn, created_at = t1, last_used_at = t2, use_count = 0,
       is_healthy = True \<rparr>"

definition queue_full :: "pool \<Rightarrow> bool" where
  \<comment> \<open>\<open>asyncio.Queue(maxsize=config.max_size).full()\<close>; a queue of size 0 or less is
      unbounded\<close>
  "queue_full s \<longleftrightarrow>
     0 < max_size (config s) \<and> max_size (config s) \<le> int (length (pool_queue s))"

subsection \<open>\<open>initialize\<close> and \<open>close\<close>\<close>

fun initialize_loop :: "env \<Rightarrow> nat \<Rightarrow> nat \<Rightarrow> pool \<Rightarrow> outcome" where
  \<comment> \<open>the \<open>for\<close> loop, with the iterations that remain and the index of the next one\<close>
  "initialize_loop e 0 i s = Returned s"
| "initialize_loop e (Suc n) i s =
     (case create_connection e i of
        None \<Rightarrow> Raised ConnectionFailed s
      | Some conn \<Rightarrow>
          let pooled = new_pooled conn (utcnow e (2 * i)) (utcnow e (2 * i + 1))
          in if queue_full s then Blocked s
             else initialize_loop e n (Suc i)
                    (s\<lparr> pool_queue := pool_queue s @ [pooled],
                        active_connections := active_connections s + 1 \<rparr>))"

definition initialize :: "env \<Rightarrow> pool \<Rightarrow> outcome" where
  "initialize e s =
     (if info_enabled e then Raised LoggingTypeError s
      else
        (case initialize_loop e (nat (min_size (config s))) 0 s of
           Returned s' \<Rightarrow> Returned (s'\<lparr> health_check_task := Some Running \<rparr>)
         | Raised err s' \<Rightarrow> Raised err s'
         | Blocked s' \<Rightarrow> Blocked s'))"

definition close :: "pool \<Rightarrow> outcome" where
  "close s =
     Returned (s\<lparr> health_check_task := map_option (\<lambda>_. Cancelled) (health_check_task s),
                 closed_log := closed_log s @ map connection (pool_queue s),
                 pool_queue := [],
                 active_connections := 0 \<rparr>)"

subsection \<open>\<open>acquire\<close>\<close>

definition release :: "PooledConnection \<Rightarrow> pool \<Rightarrow> pool" where
  \<comment> \<open>the \<open>finally\<close> block of \<open>acquire\<close>, when \<open>pooled\<close> is not \<open>None\<close>\<close>
  "release pooled s =
     (if queue_full s
      then s\<lparr> closed_log := closed_log s @ [connection pooled],
              active_connections := active_connections s - 1 \<rparr>
      else s\<lparr> pool_queue := pool_queue s @ [pooled] \<rparr>)"

definition should_recycle :: "int \<Rightarrow> PoolConfig \<Rightarrow> PooledConnection \<Rightarrow> bool" where
  "should_recycle now cfg pooled \<longleftrightarrow>
     now - created_at pooled > recycle_connections_seconds cfg * 1000000"

definition obtain_pooled :: "env \<Rightarrow> pool \<Rightarrow> outcome + PooledConnection \<times> pool" where
  \<comment> \<open>the inner \<open>try\<close>: a wrapper from the queue, or after the timeout a new connection
      while the counter is below \<open>max_size\<close>; an empty queue always times out\<close>
  "obtain_pooled e s =
     (case (if timed_out e then [] else pool_queue s) of
        pooled # _ \<Rightarrow> Inr (pooled, s\<lparr> pool_queue := tl (pool_queue s) \<rparr>)
      | [] \<Rightarrow>
          if active_connections s < max_size (config s)
          then (case create_connection e 0 of
                  None \<Rightarrow> Inl (Raised ConnectionFailed s)
                | Some conn \<Rightarrow>
                    Inr (new_pooled conn (utcnow e 0) (utcnow e 1),
                         s\<lparr> active_connections := active_connections s + 1 \<rparr>))
          else Inl (Raised PoolExhausted s))"

definition replace_pooled ::
  "env \<Rightarrow> nat \<Rightarrow> nat \<Rightarrow> PooledConnection \<Rightarrow> pool \<Rightarrow> outcome + PooledConnection \<times> pool" where
  \<comment> \<open>close the connection and create another; when the creation raises, the \<open>finally\<close>
      block runs with the old wrapper\<close>
  "replace_pooled e site clk pooled s =
     (let s' = s\<lparr> closed_log := closed_log s @ [connection pooled] \<rparr>
      in case create_connection e site of
           None \<Rightarrow> Inl (Raised ConnectionFailed (release pooled s'))
         | Some conn \<Rightarrow> Inr (new_pooled conn (utcnow e clk) (utcnow e (clk + 1)), s'))"

definition acquire :: "env \<Rightarrow> pool \<Rightarrow> outcome" where
  \<comment> \<open>\<open>acquire\<close> up to its \<open>yield\<close>\<close>
  "acquire e s =
     (case obtain_pooled e s of
        Inl out \<Rightarrow> out
      | Inr (pooled, s1) \<Rightarrow>
         (case (if should_recycle (utcnow e 2) (config s1) pooled
                then replace_pooled e 1 3 pooled s1 else Inr (pooled, s1)) of
            Inl out \<Rightarrow> out
          | Inr (pooled, s2) \<Rightarrow>
             (case (if \<not> is_connection_healthy e (connection pooled)
                    then replace_pooled e 2 5 pooled s2 else Inr (pooled, s2)) of
                Inl out \<Rightarrow> out
              | Inr (pooled, s3) \<Rightarrow>
                  Returned
                    (s3\<lparr> checked_out := checked_out s3 @
                           [pooled\<lparr> last_used_at := utcnow e 7,
                                    use_count := use_count pooled + 1 \<rparr>] \<rparr>))))"

subsection \<open>\<open>_health_check_loop\<close>\<close>

text \<open>
  One pass of the background task, after its \<open>sleep\<close>: as many wrappers as the queue
  holds at the start are taken from it in turn; a healthy one is put back, an unhealthy
  one is closed and a new connection is queued in its place. When that creation raises,
  the handler of the task logs the error and the pass is over: the wrapper is gone from
  the queue and the counter is not changed. The creation and the two clock readings of
  the iteration \<open>k\<close> are those of place \<open>k\<close>, \<open>2 * k\<close> and \<open>2 * k + 1\<close>.
\<close>

fun health_check_loop :: "env \<Rightarrow> nat \<Rightarrow> nat \<Rightarrow> pool \<Rightarrow> pool" where
  "health_check_loop e 0 k s = s"
| "health_check_loop e (Suc n) k s =
     (case pool_queue s of
        [] \<Rightarrow> s
      | pooled # rest \<Rightarrow>
          if is_connection_healthy e (connection pooled)
          then health_check_loop e n (Suc k) (s\<lparr> pool_queue := rest @ [pooled] \<rparr>)
          else
            (let s' = s\<lparr> pool_queue := rest,
                         closed_log := closed_log s @ [connection pooled] \<rparr>
             in case create_connection e k of
                  None \<Rightarrow> s'
                | Some conn \<Rightarrow>
                    health_check_loop e n (Suc k)
                      (s'\<lparr> pool_queue := rest @
                             [new_pooled conn (utcnow e (2 * k)) (utcnow e (2 * k + 1))] \<rparr>)))"

definition health_check_pass :: "env \<Rightarrow> pool \<Rightarrow> pool" where
  "health_check_pass e s = health_check_loop e (length (pool_queue s)) 0 s"

subsection \<open>Sequences of operations\<close>

text \<open>
  \<open>Release i\<close> is the end of the \<open>async with\<close> block of the caller that holds the wrapper
  at index \<open>i\<close> of \<open>checked_out\<close>; no wrapper can be released otherwise. \<open>HealthCheck\<close> is
  one pass of the background task, which runs only between \<open>initialize\<close> and \<open>close\<close>.
  A run stops at an operation that never completes.
\<close>

datatype op = Initialize env | Acquire env | Release nat | Shutdown | HealthCheck env

fun step :: "op \<Rightarrow> pool \<Rightarrow> outcome" where
  "step (Initialize e) s = initialize e s"
| "step (Acquire e) s = acquire e s"
| "step (Release i) s =
     (if i < length (checked_out s)
      then Returned (release (checked_out s ! i)
                       (s\<lparr> checked_out := take i (checked_out s) @ drop (Suc i) (checked_out s) \<rparr>))
      else Returned s)"
| "step Shutdown s = close s"
| "step (HealthCheck e) s =
     (if health_check_task s = Some Running then Returned (health_check_pass e s)
      else Returned s)"

fun run :: "op list \<Rightarrow> pool \<Rightarrow> pool" where
  "run [] s = s"
| "run (x # xs) s =
     (case step x s of
        Returned s' \<Rightarrow> run xs s'
      | Raised err s' \<Rightarrow> run xs s'
      | Blocked s' \<Rightarrow> s')"

fun allowed :: "op \<Rightarrow> pool \<Rightarrow> bool" where
  \<comment> \<open>\<open>initialize\<close> and \<open>close\<close> are called only while no wrapper is checked out\<close>
  "allowed (Initialize e) s \<longleftrightarrow> checked_out s = []"
| "allowed Shutdown s \<longleftrightarrow> checked_out s = []"
| "allowed (Acquire e) s \<longleftrightarrow> True"
| "allowed (Release i) s \<longleftrightarrow> True"
| "allowed (HealthCheck e) s \<longleftrightarrow> True"

fun is_health_check :: "op \<Rightarrow> bool" where
  "is_health_check (HealthCheck e) \<longleftrightarrow> True"
| "is_health_check x \<longleftrightarrow> False"

fun disciplined :: "op list \<Rightarrow> pool \<Rightarrow> bool" where
  "disciplined [] s \<longleftrightarrow> True"
| "disciplined (x # xs) s \<longleftrightarrow>
     allowed x s \<and>
     (case step x s of
        Returned s' \<Rightarrow> disciplined xs s'
      | Raised err s' \<Rightarrow> disciplined xs s'
      | Blocked s' \<Rightarrow> True)"

definition counted :: "bool \<Rightarrow> int \<Rightarrow> pool \<Rightarrow> bool" where
  \<comment> \<open>the wrappers, idle or checked out, and the \<open>held\<close> ones in the hands of \<open>acquire\<close>,
      are within \<open>max_size\<close> and within the counter; when \<open>exact\<close>, they are as many as
      the counter says\<close>
  "counted exact held s \<longleftrightarrow>
     int (length (pool_queue s)) + int (length (checked_out s)) + held
       \<le> max_size (config s) \<and>
     int (length (pool_queue s)) + int (length (checked_out s)) + held
       \<le> active_connections s \<and>
     (exact \<longrightarrow>
        int (length (pool_queue s)) + int (length (checked_out s)) + held
          = active_connections s)"

subsection \<open>Concrete inputs\<close>

definition steady_env :: "nat \<Rightarrow> env" where
  \<comment> \<open>every creation succeeds, with the handles \<open>base\<close>, \<open>base + 1\<close>, ...; the clock stands
      still; every connection is healthy; the logger is not enabled for \<open>INFO\<close>\<close>
  "steady_env base =
     \<lparr> create_connection = (\<lambda>k. Some (base + k)), utcnow = (\<lambda>k. 0),
       is_connection_healthy = (\<lambda>c. True), timed_out = False, info_enabled = False \<rparr>"

definition failing_env :: "nat \<Rightarrow> nat \<Rightarrow> env" where
  \<comment> \<open>as \<open>steady_env\<close>, but only the first \<open>n\<close> creations succeed\<close>
  "failing_env base n =
     \<lparr> create_connection = (\<lambda>k. if k < n then Some (base + k) else None), utcnow = (\<lambda>k. 0),
       is_connection_healthy = (\<lambda>c. True), timed_out = False, info_enabled = False \<rparr>"

definition small_config :: "int \<Rightarrow> int \<Rightarrow> PoolConfig" where
  \<comment> \<open>\<open>PoolConfig(min_size=mn, max_size=mx)\<close>\<close>
  "small_config mn mx =
     \<lparr> min_size = mn, max_size = mx, max_idle_time_seconds = 300,
       connection_timeout_seconds = 30, health_check_interval_seconds = 60,
       recycle_connections_seconds = 3600 \<rparr>"


definition shutdown_then_overflow :: "op list" where
  "shutdown_then_overflow =
     [Initialize (steady_env 0), Acquire (steady_env 10), Shutdown,
      Acquire (steady_env 20), Acquire (steady_env 30)]"

definition initialize_twice :: "op list" where
  "initialize_twice =
     [Initialize (steady_env 0), Acquire (steady_env 10), Acquire (steady_env 20),
      Initialize (steady_env 30)]"

definition overflow_trace :: "op list" where
  "overflow_trace =
     [Initialize (steady_env 0), Acquire (steady_env 10), Acquire (steady_env 20),
      Acquire (steady_env 30)]"

definition broken_env :: env where
  \<comment> \<open>every connection is unhealthy and every creation fails\<close>
  "broken_env =
     \<lparr> create_connection = (\<lambda>k. None), utcnow = (\<lambda>k. 0),
       is_connection_healthy = (\<lambda>c. False), timed_out = False, info_enabled = False \<rparr>"

definition audited_trace :: "op list" where
  "audited_trace =
     [Initialize (steady_env 0), HealthCheck broken_env, Acquire (steady_env 10),
      Acquire (steady_env 20)]"

definition release_after_shutdown :: "op list" where
  "release_after_shutdown =
     [Initialize (steady_env 0), Acquire (steady_env 10), Shutdown, Release 0]"

section \<open>The matcher finds exactly the matches\<close>

lemma step_char_iff:
  "q \<in> set (step_char ok p) \<longleftrightarrow> (\<exists>c cs. snd p = c # cs \<and> ok c \<and> q = (Some c, cs))"
  by (auto simp: step_char_def split: list.splits)

lemma star_ends_sound:
  assumes f: "\<And>p q. q \<in> set (f p) \<Longrightarrow> matches r p q"
  shows "q \<in> set (star_ends f n ps) \<Longrightarrow> \<exists>p \<in> set ps. matches (Star r) p q"
proof (induction n arbitrary: ps)
  case 0
  then show ?case by simp
next
  case (Suc n)
  show ?case
  proof (cases "q \<in> set ps")
    case True
    then show ?thesis using m_Star0 by blast
  next
    case False
    then have "q \<in> set (star_ends f n (concat (map f ps)))"
      using Suc.prems by (auto split: if_splits)
    then obtain p' where p': "p' \<in> set (concat (map f ps))" and m: "matches (Star r) p' q"
      using Suc.IH by blast
    from p' obtain p where "p \<in> set ps" "p' \<in> set (f p)" by auto
    then show ?thesis using f m m_Star1 by blast
  qed
qed

lemma ends_sound: "q \<in> set (ends r p) \<Longrightarrow> matches r p q"
proof (induction r arbitrary: p q)
  case (Lit a)
  then show ?case by (cases p) (auto simp: step_char_iff intro: m_Lit)
next
  case Space
  then show ?case by (cases p) (auto simp: step_char_iff intro: m_Space)
next
  case WordCh
  then show ?case by (cases p) (auto simp: step_char_iff intro: m_WordCh)
next
  case WordB
  then show ?case by (auto split: if_splits intro: m_WordB)
next
  case Eps
  then show ?case by (auto intro: m_Eps)
next
  case (Seq r1 r2)
  from Seq.prems obtain m where "m \<in> set (ends r1 p)" "q \<in> set (ends r2 m)"
    by auto
  then show ?case using Seq.IH by (blast intro: m_Seq)
next
  case (Alt r1 r2)
  from Alt.prems have "q \<in> set (ends r1 p) \<or> q \<in> set (ends r2 p)"
    by simp
  then show ?case using Alt.IH by (blast intro: m_Alt1 m_Alt2)
next
  case (Star r)
  have "\<exists>p' \<in> set [p]. matches (Star r) p' q"
    by (rule star_ends_sound [of "ends r" r q "Suc (length (snd p))"])
       (use Star in auto)
  then show ?case by simp
qed

lemma matches_shrinks: "matches r p q \<Longrightarrow> q = p \<or> length (snd q) < length (snd p)"
  by (induction rule: matches.induct) auto

lemma star_ends_mono_front:
  "set ps \<subseteq> set ps' \<Longrightarrow> set (star_ends f n ps) \<subseteq> set (star_ends f n ps')"
proof (induction n arbitrary: ps ps')
  case 0
  then show ?case by simp
next
  case (Suc n)
  have "set (concat (map f ps)) \<subseteq> set (concat (map f ps'))"
    using Suc.prems by auto
  from Suc.IH [OF this] show ?case using Suc.prems by auto
qed

lemma star_ends_mono_Suc: "set (star_ends f n ps) \<subseteq> set (star_ends f (Suc n) ps)"
proof (induction n arbitrary: ps)
  case 0
  then show ?case by simp
next
  case (Suc n)
  show ?case
  proof (cases "ps = []")
    case True
    then show ?thesis by simp
  next
    case False
    have a: "star_ends f (Suc n) ps = ps @ star_ends f n (concat (map f ps))"
      using False by (simp only: star_ends.simps if_False)
    have b: "star_ends f (Suc (Suc n)) ps = ps @ star_ends f (Suc n) (concat (map f ps))"
      using False by (simp only: star_ends.simps if_False)
    have "set (star_ends f n (concat (map f ps)))
            \<subseteq> set (star_ends f (Suc n) (concat (map f ps)))"
      by (rule Suc.IH)
    then show ?thesis
      unfolding a b set_append by blast
  qed
qed

lemma star_ends_mono_fuel:
  "m \<le> n \<Longrightarrow> set (star_ends f m ps) \<subseteq> set (star_ends f n ps)"
proof (induction n)
  case 0
  then show ?case by simp
next
  case (Suc n)
  show ?case
  proof (cases "m = Suc n")
    case True
    then show ?thesis by simp
  next
    case False
    then have "m \<le> n" using Suc.prems by simp
    then show ?thesis using Suc.IH star_ends_mono_Suc [of f n ps] by blast
  qed
qed

lemma ends_complete: "matches r p q \<Longrightarrow> q \<in> set (ends r p)"
proof (induction rule: matches.induct)
  case (m_Star1 r p q u)
  let ?f = "ends r"
  let ?n = "length (snd p)"
  from matches_shrinks [OF m_Star1.hyps(1)] show ?case
  proof
    assume "q = p"
    then show ?thesis using m_Star1.IH(2) by simp
  next
    assume less: "length (snd q) < length (snd p)"
    have "u \<in> set (star_ends ?f (Suc (length (snd q))) [q])"
      using m_Star1.IH(2) by simp
    then have "u \<in> set (star_ends ?f ?n [q])"
      using star_ends_mono_fuel [of "Suc (length (snd q))" ?n ?f "[q]"] less by auto
    moreover have "set [q] \<subseteq> set (concat (map ?f [p]))"
      using m_Star1.IH(1) by simp
    ultimately have "u \<in> set (star_ends ?f ?n (concat (map ?f [p])))"
      using star_ends_mono_front by blast
    then show ?thesis by simp
  qed
qed (auto simp: step_char_iff)

text \<open>
  The positions that \<open>ends\<close> lists are the ends of the matches, so the bound on the
  rounds of a repetition loses none.
\<close>

lemma ends_iff_matches: "q \<in> set (ends r p) \<longleftrightarrow> matches r p q"
  using ends_sound ends_complete by blast

lemma search_from_iff:
  "search_from r prev s \<longleftrightarrow>
     (\<exists>pre post q. s = pre @ post \<and>
        matches r (if pre = [] then prev else Some (last pre), post) q)"
proof (induction s arbitrary: prev)
  case Nil
  have "ends r (prev, []) \<noteq> [] \<longleftrightarrow> (\<exists>q. matches r (prev, []) q)"
    using ends_iff_matches [of _ r "(prev, [])"] by (metis ex_in_conv set_empty)
  then show ?case by simp
next
  case (Cons c cs)
  have here: "ends r (prev, c # cs) \<noteq> [] \<longleftrightarrow> (\<exists>q. matches r (prev, c # cs) q)"
    using ends_iff_matches [of _ r "(prev, c # cs)"] by (metis ex_in_conv set_empty)
  show ?case
  proof
    assume "search_from r prev (c # cs)"
    then consider "\<exists>q. matches r (prev, c # cs) q" | "search_from r (Some c) cs"
      using here by auto
    then show "\<exists>pre post q. c # cs = pre @ post \<and>
        matches r (if pre = [] then prev else Some (last pre), post) q"
    proof cases
      case 1
      then obtain q where "matches r (prev, c # cs) q" by blast
      then have "c # cs = [] @ (c # cs) \<and>
          matches r (if [] = ([]::string) then prev else Some (last []), c # cs) q"
        by simp
      then show ?thesis by blast
    next
      case 2
      then obtain pre post q where s: "cs = pre @ post"
        and m: "matches r (if pre = [] then Some c else Some (last pre), post) q"
        using Cons.IH by blast
      have "c # cs = (c # pre) @ post \<and>
          matches r (if c # pre = [] then prev else Some (last (c # pre)), post) q"
        using s m by (cases pre) auto
      then show ?thesis by blast
    qed
  next
    assume "\<exists>pre post q. c # cs = pre @ post \<and>
        matches r (if pre = [] then prev else Some (last pre), post) q"
    then obtain pre post q where s: "c # cs = pre @ post"
      and m: "matches r (if pre = [] then prev else Some (last pre), post) q"
      by blast
    show "search_from r prev (c # cs)"
    proof (cases pre)
      case Nil
      then have "matches r (prev, c # cs) q" using s m by simp
      then have "ends r (prev, c # cs) \<noteq> []" using here by blast
      then show ?thesis by simp
    next
      case (Cons a pre')
      then have a: "a = c" and cs: "cs = pre' @ post" using s by simp_all
      have "matches r (if pre' = [] then Some c else Some (last pre'), post) q"
        using m Cons a by (cases pre') auto
      then have "search_from r (Some c) cs"
        using Cons.IH cs by blast
      then show ?thesis by simp
    qed
  qed
qed

lemma search_iff:
  "search r s \<longleftrightarrow>
     (\<exists>pre post q. s = pre @ post \<and>
        matches r (if pre = [] then None else Some (last pre), post) q)"
  by (simp add: search_def search_from_iff)

section \<open>Properties of \<open>sanitize_identifier\<close>\<close>

lemma ident_char_underscore: "ident_char (CHR ''_'')"
  by (simp add: ident_char_def)

lemma not_isdigit_underscore: "\<not> py_isdigit (CHR ''_'')"
  by (simp add: py_isdigit_def less_eq_char_def)

lemma filter_ident_sanitize:
  "filter ident_char (sanitize_identifier s) = sanitize_identifier s"
  by (simp add: sanitize_identifier_def Let_def ident_char_underscore)

lemma sanitize_no_leading_digit:
  "sanitize_identifier s \<noteq> [] \<Longrightarrow> \<not> py_isdigit (hd (sanitize_identifier s))"
  by (simp add: sanitize_identifier_def Let_def not_isdigit_underscore split: if_splits)

text \<open>
  C2 as the claim states it: the call on \<open>1secret;DROP\<close> would return \<open>_secretDROP\<close>.
  The digit is in the permitted class, so it is kept and the underscore goes in front of it.
\<close>

theorem sanitize_example_counterexample:
  "sanitize_identifier ''1secret;DROP'' \<noteq> ''_secretDROP''"
  by (simp add: sanitize_identifier_def ident_char_def py_isdigit_def less_eq_char_def)

text \<open>
  C2, amended: \<open>sanitize_identifier\<close> applied to \<open>1secret;DROP\<close> returns \<open>_1secretDROP\<close>:
  only the semicolon is stripped, and the underscore is put before the leading digit.
\<close>

theorem sanitize_example:
  "sanitize_identifier ''1secret;DROP'' = ''_1secretDROP''"
  by (simp add: sanitize_identifier_def ident_char_def py_isdigit_def less_eq_char_def)

text \<open>
  C10: \<open>sanitize_identifier\<close> is idempotent; its output has only characters of
  \<open>[A-Za-z0-9_.]\<close> and, unless it is empty, does not start with a digit.
\<close>

theorem sanitize_identifier_idempotent:
  "sanitize_identifier (sanitize_identifier s) = sanitize_identifier s
   \<and> list_all ident_char (sanitize_identifier s)
   \<and> (case sanitize_identifier s of [] \<Rightarrow> True | c # _ \<Rightarrow> \<not> py_isdigit c)"
proof (intro conjI)
  let ?t = "sanitize_identifier s"
  have keep: "filter ident_char ?t = ?t"
    by (rule filter_ident_sanitize)
  have lead: "?t \<noteq> [] \<Longrightarrow> \<not> py_isdigit (hd ?t)"
    by (rule sanitize_no_leading_digit)
  show "sanitize_identifier ?t = ?t"
  proof (cases "?t = []")
    case True
    then show ?thesis by (simp add: sanitize_identifier_def)
  next
    case False
    have "sanitize_identifier ?t =
            (if filter ident_char ?t \<noteq> [] \<and> py_isdigit (hd (filter ident_char ?t))
             then CHR ''_'' # filter ident_char ?t else filter ident_char ?t)"
      by (simp add: sanitize_identifier_def [of ?t] Let_def)
    also have "\<dots> = ?t"
      using lead [OF False] by (simp add: keep)
    finally show ?thesis .
  qed
  show "list_all ident_char ?t"
    using keep by (metis filter_id_conv list_all_iff)
  show "case ?t of [] \<Rightarrow> True | c # _ \<Rightarrow> \<not> py_isdigit c"
    using lead by (cases ?t) simp_all
qed

section \<open>Properties of \<open>mask_sensitive_data\<close>\<close>

lemma update_fresh: "k \<notin> fst ` set al \<Longrightarrow> AList.update k v al = al @ [(k, v)]"
  by (induction al) auto

lemma set_update_subset: "set (AList.update k v al) \<subseteq> insert (k, v) (set al)"
  by (induction al) auto

lemma fold_update_distinct:
  "distinct (map fst acc) \<Longrightarrow>
   distinct (map fst (fold (\<lambda>(k, v) m. AList.update k (g k v) m) xs acc))"
  by (induction xs arbitrary: acc) (auto simp: AList.distinct_update)

lemma fold_update_values:
  assumes "\<And>k w. (k, w) \<in> set acc \<Longrightarrow> Q k w" and "\<And>k v. Q k (g k v)"
  shows "(k, w) \<in> set (fold (\<lambda>(k, v) m. AList.update k (g k v) m) xs acc) \<Longrightarrow> Q k w"
  using assms(1)
proof (induction xs arbitrary: acc)
  case Nil
  then show ?case by simp
next
  case (Cons x xs)
  obtain k' v' where x: "x = (k', v')" by (cases x)
  show ?case
  proof (rule Cons.IH [of "AList.update k' (g k' v') acc"])
    show "(k, w) \<in> set (fold (\<lambda>(k, v). AList.update k (g k v)) xs (AList.update k' (g k' v') acc))"
      using Cons.prems(1) by (simp add: x)
  next
    fix a b assume "(a, b) \<in> set (AList.update k' (g k' v') acc)"
    then have "(a, b) = (k', g k' v') \<or> (a, b) \<in> set acc"
      using set_update_subset [of k' "g k' v'" acc] by auto
    then show "Q a b" using Cons.prems(2) assms(2) by auto
  qed
qed

lemma fold_update_map:
  "distinct (map fst xs) \<Longrightarrow> fst ` set xs \<inter> fst ` set acc = {} \<Longrightarrow>
   fold (\<lambda>(k, v) m. AList.update k (g k v) m) xs acc = acc @ map (\<lambda>(k, v). (k, g k v)) xs"
proof (induction xs arbitrary: acc)
  case Nil
  then show ?case by simp
next
  case (Cons x xs)
  obtain k v where x: "x = (k, v)" by (cases x)
  have fresh: "k \<notin> fst ` set acc" using Cons.prems(2) by (auto simp: x)
  have upd: "AList.update k (g k v) acc = acc @ [(k, g k v)]"
    by (rule update_fresh [OF fresh])
  have d: "distinct (map fst xs)" and nk: "k \<notin> fst ` set xs"
    using Cons.prems(1) by (auto simp: x)
  have disj: "fst ` set xs \<inter> fst ` set (acc @ [(k, g k v)]) = {}"
    using Cons.prems(2) nk by (auto simp: x)
  show ?case
    using Cons.IH [OF d disj] by (simp add: x upd)
qed

lemma mask_text_length: "4 < length v \<Longrightarrow> length (mask_text v) = length v"
  by (simp add: mask_text_def)

lemma mask_text_idem: "4 < length v \<Longrightarrow> mask_text (mask_text v) = mask_text v"
  by (simp add: mask_text_def)

lemma mask_entry_idem: "mask_entry S k (mask_entry S k v) = mask_entry S k v"
  by (cases v) (simp_all add: mask_entry_def Let_def mask_text_length mask_text_idem)

lemma two_mask_two_eq: "two_mask_two v = mask_text v"
  by (simp add: two_mask_two_def mask_text_def take_rev)

lemma mask_entry_spec: "mask_entry (map py_lower S) k v = Mask_field S k v"
  by (cases v)
     (simp_all add: mask_entry_def Mask_field_def Let_def two_mask_two_eq list_ex_iff)

lemma mask_sensitive_data_map:
  "distinct (map fst data) \<Longrightarrow>
   mask_sensitive_data policy data = Mask (sensitive_columns policy) data"
  using fold_update_map [of data "[]" "mask_entry (map py_lower (sensitive_columns policy))"]
  by (simp add: mask_sensitive_data_def Mask_def mask_entry_spec)

lemma mask_example:
  "sensitive_columns policy = [''password''] \<Longrightarrow>
   mask_sensitive_data policy [(''password'', PyStr ''hunter2''), (''name'', PyStr ''Ann'')] =
     [(''password'', PyStr ''hu***r2''), (''name'', PyStr ''Ann'')]"
  by (simp add: mask_sensitive_data_def mask_entry_def mask_text_def py_lower_def
        py_lower_char_def less_eq_char_def)

text \<open>
  C4: on a row (a dictionary, so its keys are distinct) \<open>mask_sensitive_data\<close> keeps the
  fields in order and gives each field the value that \<open>Mask_field\<close> describes: a field
  whose name contains a sensitive name, case ignored, and whose value is not \<open>None\<close>
  becomes its first two characters, stars, and its last two characters when it is a
  string longer than 4 (of the same length as before), and \<open>****\<close> otherwise; any other
  field keeps its value. The row \<open>password: hunter2, name: Ann\<close> becomes
  \<open>password: hu***r2, name: Ann\<close>.
\<close>

theorem mask_sensitive_data_rule:
  "(distinct (map fst data) \<longrightarrow>
      mask_sensitive_data policy data = Mask (sensitive_columns policy) data)
   \<and> (4 < length v \<longrightarrow> length (two_mask_two v) = length v)
   \<and> (sensitive_columns policy = [''password''] \<longrightarrow>
        mask_sensitive_data policy
          [(''password'', PyStr ''hunter2''), (''name'', PyStr ''Ann'' :: 'a pyvalue)] =
          [(''password'', PyStr ''hu***r2''), (''name'', PyStr ''Ann'')])
   \<and> ((\<not> (\<exists>s \<in> set S. py_in (py_lower s) (py_lower name)) \<or> val = PyNone) \<longrightarrow>
        Mask_field S name (val :: 'a pyvalue) = val)"
proof (intro conjI impI)
  assume "distinct (map fst data)"
  then show "mask_sensitive_data policy data = Mask (sensitive_columns policy) data"
    by (rule mask_sensitive_data_map)
next
  assume "4 < length v"
  then show "length (two_mask_two v) = length v"
    by (simp add: two_mask_two_eq mask_text_length)
next
  assume "sensitive_columns policy = [''password'']"
  then show "mask_sensitive_data policy
          [(''password'', PyStr ''hunter2''), (''name'', PyStr ''Ann'' :: 'a pyvalue)] =
          [(''password'', PyStr ''hu***r2''), (''name'', PyStr ''Ann'')]"
    by (rule mask_example)
next
  assume "\<not> (\<exists>s \<in> set S. py_in (py_lower s) (py_lower name)) \<or> val = PyNone"
  then show "Mask_field S name val = val"
    by (auto simp: Mask_field_def)
qed

theorem mask_sensitive_data_rule_witness:
  "mask_sensitive_data (SecurityConfig_default True)
     [(''user_password'', PyStr ''hunter2''), (''Token'', PyOther (42::int)),
      (''pwd'', PyStr ''abc''), (''secret'', PyNone), (''name'', PyStr ''Ann'')] =
     [(''user_password'', PyStr ''hu***r2''), (''Token'', PyStr ''****''),
      (''pwd'', PyStr ''****''), (''secret'', PyNone), (''name'', PyStr ''Ann'')]
   \<and> length (two_mask_two ''hunter2'') = length ''hunter2''
   \<and> mask_sensitive_data (SecurityConfig_default True \<lparr> sensitive_columns := [''password''] \<rparr>)
        [(''password'', PyStr ''hunter2''), (''name'', PyStr ''Ann'' :: int pyvalue)] =
        [(''password'', PyStr ''hu***r2''), (''name'', PyStr ''Ann'')]
   \<and> Mask_field [''password''] ''name'' (PyStr ''Ann'' :: int pyvalue) = PyStr ''Ann''"
proof -
  let ?row = "[(''user_password'', PyStr ''hunter2''), (''Token'', PyOther (42::int)),
      (''pwd'', PyStr ''abc''), (''secret'', PyNone), (''name'', PyStr ''Ann'')]"
  let ?p = "SecurityConfig_default True \<lparr> sensitive_columns := [''password''] \<rparr>"
  note a = mask_sensitive_data_rule
    [where data = ?row and policy = "SecurityConfig_default True" and v = "''hunter2''"
       and S = "[''password'']" and name = "''name''" and val = "PyStr ''Ann''"]
  note b = mask_sensitive_data_rule
    [where data = ?row and policy = ?p and v = "''hunter2''"
       and S = "[''password'']" and name = "''name''" and val = "PyStr ''Ann''"]
  have 1: "mask_sensitive_data (SecurityConfig_default True) ?row =
             Mask (sensitive_columns (SecurityConfig_default True)) ?row"
    by (rule a [THEN conjunct1, THEN mp]) simp
  have 2: "length (two_mask_two ''hunter2'') = length ''hunter2''"
    by (rule a [THEN conjunct2, THEN conjunct1, THEN mp]) simp
  have 3: "mask_sensitive_data ?p
        [(''password'', PyStr ''hunter2''), (''name'', PyStr ''Ann'' :: int pyvalue)] =
        [(''password'', PyStr ''hu***r2''), (''name'', PyStr ''Ann'')]"
    by (rule b [THEN conjunct2, THEN conjunct2, THEN conjunct1, THEN mp]) simp
  have 4: "Mask_field [''password''] ''name'' (PyStr ''Ann'' :: int pyvalue) = PyStr ''Ann''"
    by (rule a [THEN conjunct2, THEN conjunct2, THEN conjunct2, THEN mp])
       (simp add: py_lower_def py_lower_char_def less_eq_char_def)
  have 5: "Mask (sensitive_columns (SecurityConfig_default True)) ?row =
     [(''user_password'', PyStr ''hu***r2''), (''Token'', PyStr ''****''),
      (''pwd'', PyStr ''****''), (''secret'', PyNone), (''name'', PyStr ''Ann'')]"
    by (simp add: SecurityConfig_default_def Mask_def Mask_field_def two_mask_two_def
          py_lower_def py_lower_char_def less_eq_char_def)
  show ?thesis
    by (intro conjI) (simp_all only: 1 2 3 4 5)
qed

text \<open>
  C5: masking is idempotent, on every association list and for every configuration; the
  function is total, so the second application returns as the first does.
\<close>

theorem mask_sensitive_data_idempotent:
  "mask_sensitive_data policy (mask_sensitive_data policy data) =
   mask_sensitive_data policy data"
proof -
  define S where "S = map py_lower (sensitive_columns policy)"
  define g :: "string \<Rightarrow> 'a pyvalue \<Rightarrow> 'a pyvalue" where "g = mask_entry S"
  define R where "R = mask_sensitive_data policy data"
  have R: "R = fold (\<lambda>(k, v) m. AList.update k (g k v) m) data []"
    by (simp add: R_def mask_sensitive_data_def S_def g_def)
  have dist: "distinct (map fst R)"
    unfolding R by (rule fold_update_distinct) simp
  have fixed: "g k w = w" if "(k, w) \<in> set R" for k w
  proof -
    from that have m: "(k, w) \<in> set (fold (\<lambda>(k, v) m. AList.update k (g k v) m) data [])"
      unfolding R .
    show ?thesis
      by (rule fold_update_values [where Q = "\<lambda>k w. g k w = w" and g = g, OF _ _ m])
         (simp_all add: g_def mask_entry_idem)
  qed
  have "mask_sensitive_data policy R = fold (\<lambda>(k, v) m. AList.update k (g k v) m) R []"
    by (simp add: mask_sensitive_data_def S_def g_def)
  also have "\<dots> = map (\<lambda>(k, v). (k, g k v)) R"
    using fold_update_map [OF dist, of "[]" g] by simp
  also have "\<dots> = R"
    using fixed by (induction R) auto
  finally show ?thesis by (simp add: R_def)
qed

section \<open>Properties of \<open>validate_query\<close>\<close>

lemma dropWhile_all: "(\<forall>x \<in> set (dropWhile P xs). P x) \<longleftrightarrow> (\<forall>x \<in> set xs. P x)"
proof
  assume a: "\<forall>x \<in> set (dropWhile P xs). P x"
  have "dropWhile P xs = []"
  proof (rule ccontr)
    assume n: "dropWhile P xs \<noteq> []"
    then have "\<not> P (hd (dropWhile P xs))" by (rule hd_dropWhile)
    moreover have "hd (dropWhile P xs) \<in> set (dropWhile P xs)" using n by simp
    ultimately show False using a by blast
  qed
  then show "\<forall>x \<in> set xs. P x" by (simp add: dropWhile_eq_Nil_conv)
next
  assume "\<forall>x \<in> set xs. P x"
  then show "\<forall>x \<in> set (dropWhile P xs). P x" by (meson set_dropWhileD)
qed

lemma blank_iff: "query = [] \<or> py_strip query = [] \<longleftrightarrow> list_all py_isspace query"
  by (auto simp: py_strip_def dropWhile_eq_Nil_conv dropWhile_all list_all_iff)

lemma find_Some_ex: "find P xs = Some x \<Longrightarrow> \<exists>y \<in> set xs. P y"
  by (auto simp: find_Some_iff)

lemma validate_query_refines:
  "verdict_of (validate_query policy query) = Validate policy query"
proof -
  have blank: "(query = [] \<or> py_strip query = []) = list_all py_isspace query"
    by (rule blank_iff)
  show ?thesis
    unfolding validate_query_def Validate_def Validate_rules_def verdict_of_def Let_def blank
    by (auto simp: list_ex_iff find_None_iff split: option.splits dest: find_Some_ex)
qed

lemma validate_query_flag:
  "fst (validate_query policy query) \<longleftrightarrow> snd (validate_query policy query) = None"
  by (simp add: validate_query_def Let_def split: option.splits)

lemma Validate_write:
  "Validate policy query = Rejected WriteInReadOnlyMode \<longleftrightarrow>
     \<not> list_all py_isspace query \<and> int (length query) \<le> max_query_length policy \<and>
     read_only policy \<and> (\<exists>p \<in> set WRITE_PATTERNS. search p query)"
  unfolding Validate_def Validate_rules_def by auto



lemma delete_1_not_blank: "\<not> list_all py_isspace ''DELETE 1''"
  by (simp add: py_isspace_def less_eq_char_def)





lemma delete_1_write: "\<not> (\<exists>p \<in> set WRITE_PATTERNS. search p ''DELETE 1'')"
  by code_simp

lemma delete_1_injection: "\<not> (\<exists>p \<in> set INJECTION_PATTERNS. search p ''DELETE 1'')"
  by code_simp

lemma delete_1_word: "search (whole_word ''DELETE'') ''DELETE 1''"
  by code_simp




lemma Validate_delete_1:
  "8 \<le> max_query_length policy \<Longrightarrow>
   blocked_keywords policy = [] \<Longrightarrow> blocked_tables policy = [] \<Longrightarrow>
   Validate policy ''DELETE 1'' = Accepted"
  unfolding Validate_def Validate_rules_def
  using delete_1_not_blank delete_1_write delete_1_injection by simp



text \<open>
  C9: under \<open>read_only\<close> the write check rejects exactly the texts in which one of the
  patterns of \<open>WRITE_PATTERNS\<close> is found (the query being neither blank nor too long).
  \<open>DELETE 1\<close> holds the word \<open>DELETE\<close> but matches none of them, and with no blocked
  keyword and no blocked table it is accepted.
\<close>

theorem write_check_structured_forms_only:
  "(verdict_of (validate_query policy query) = Rejected WriteInReadOnlyMode \<longleftrightarrow>
      \<not> list_all py_isspace query \<and> int (length query) \<le> max_query_length policy \<and>
      read_only policy \<and> (\<exists>p \<in> set WRITE_PATTERNS. search p query))
   \<and> search (whole_word ''DELETE'') ''DELETE 1''
   \<and> (read_only policy \<and> 8 \<le> max_query_length policy \<and>
        blocked_keywords policy = [] \<and> blocked_tables policy = [] \<longrightarrow>
        verdict_of (validate_query policy ''DELETE 1'') = Accepted
        \<and> validate_query policy ''DELETE 1'' = (True, None))"
proof (intro conjI impI)
  show "verdict_of (validate_query policy query) = Rejected WriteInReadOnlyMode \<longleftrightarrow>
      \<not> list_all py_isspace query \<and> int (length query) \<le> max_query_length policy \<and>
      read_only policy \<and> (\<exists>p \<in> set WRITE_PATTERNS. search p query)"
    by (simp only: validate_query_refines Validate_write)
  show "search (whole_word ''DELETE'') ''DELETE 1''"
    by (rule delete_1_word)
next
  assume h: "read_only policy \<and> 8 \<le> max_query_length policy \<and>
        blocked_keywords policy = [] \<and> blocked_tables policy = []"
  then show v: "verdict_of (validate_query policy ''DELETE 1'') = Accepted"
    by (simp add: validate_query_refines Validate_delete_1)
  have "snd (validate_query policy ''DELETE 1'') = None"
    using v by (simp add: verdict_of_def split: option.splits)
  moreover from this have "fst (validate_query policy ''DELETE 1'')"
    by (simp add: validate_query_flag)
  ultimately show "validate_query policy ''DELETE 1'' = (True, None)"
    by (cases "validate_query policy ''DELETE 1''") simp
qed

theorem write_check_structured_forms_only_witness:
  "verdict_of (validate_query (SecurityConfig_default True \<lparr> blocked_keywords := [] \<rparr>)
     ''DELETE 1'') = Accepted
   \<and> verdict_of (validate_query (SecurityConfig_default True \<lparr> blocked_keywords := [] \<rparr>)
     ''DELETE FROM t'') = Rejected WriteInReadOnlyMode"
proof -
  let ?p = "SecurityConfig_default True \<lparr> blocked_keywords := [] \<rparr>"
  note a = write_check_structured_forms_only [where policy = ?p and query = "''DELETE FROM t''"]
  have 1: "verdict_of (validate_query ?p ''DELETE 1'') = Accepted"
    by (rule a [THEN conjunct2, THEN conjunct2, THEN mp, THEN conjunct1])
       (simp add: SecurityConfig_default_def)
  have w: "\<exists>p \<in> set WRITE_PATTERNS. search p ''DELETE FROM t''"
    by code_simp
  have 2: "verdict_of (validate_query ?p ''DELETE FROM t'') = Rejected WriteInReadOnlyMode"
    unfolding a [THEN conjunct1]
    using w by (simp add: SecurityConfig_default_def py_isspace_def less_eq_char_def)
  show ?thesis
    by (intro conjI) (simp_all only: 1 2)
qed

section \<open>Properties of the connection pool\<close>

lemma release_config [simp]: "config (release p s) = config s"
  by (simp add: release_def)

lemma release_counted:
  "counted x 1 s \<Longrightarrow> counted x 0 (release p s)"
  by (auto simp: counted_def release_def queue_full_def split: if_splits)

lemma obtain_pooled_Inr:
  "counted x 0 s \<Longrightarrow> obtain_pooled e s = Inr (p, s1) \<Longrightarrow>
   counted x 1 s1 \<and> config s1 = config s"
  by (auto simp: obtain_pooled_def counted_def split: list.splits if_splits option.splits)

lemma obtain_pooled_Inl:
  "obtain_pooled e s = Inl out \<Longrightarrow> state_of out = s"
  by (auto simp: obtain_pooled_def split: list.splits if_splits option.splits)

lemma replace_pooled_Inr:
  "counted x 1 s \<Longrightarrow> replace_pooled e site clk p s = Inr (p', s') \<Longrightarrow>
   counted x 1 s' \<and> config s' = config s"
  by (auto simp: replace_pooled_def counted_def Let_def split: option.splits if_splits)

lemma replace_pooled_Inl:
  "counted x 1 s \<Longrightarrow> replace_pooled e site clk p s = Inl out \<Longrightarrow>
   counted x 0 (state_of out) \<and> config (state_of out) = config s"
proof -
  assume h: "counted x 1 s" and r: "replace_pooled e site clk p s = Inl out"
  let ?s' = "s\<lparr> closed_log := closed_log s @ [connection p] \<rparr>"
  have h': "counted x 1 ?s'" using h by (auto simp: counted_def)
  have out: "out = Raised ConnectionFailed (release p ?s')"
    using r by (auto simp: replace_pooled_def Let_def split: option.splits)
  show ?thesis
    using release_counted [OF h', of p] by (simp add: out)
qed

lemma checked_out_append_counted:
  "counted x 1 s \<Longrightarrow> counted x 0 (s\<lparr> checked_out := checked_out s @ [p] \<rparr>)"
  by (auto simp: counted_def)

lemma stage_counted:
  assumes "counted x 1 s"
  shows "case (if c then replace_pooled e site clk p s else Inr (p, s)) of
           Inl out \<Rightarrow> counted x 0 (state_of out) \<and> config (state_of out) = config s
         | Inr ps \<Rightarrow> counted x 1 (snd ps) \<and> config (snd ps) = config s"
proof (cases c)
  case False
  then show ?thesis using assms by simp
next
  case True
  show ?thesis
  proof (cases "replace_pooled e site clk p s")
    case (Inl out)
    then show ?thesis using True replace_pooled_Inl [OF assms Inl] by simp
  next
    case (Inr ps)
    obtain p' s' where ps: "ps = (p', s')" by (cases ps)
    show ?thesis using True Inr ps replace_pooled_Inr [OF assms, of e site clk p p' s'] by simp
  qed
qed

lemma acquire_counted:
  assumes inv: "counted x 0 s"
  shows "counted x 0 (state_of (acquire e s)) \<and> config (state_of (acquire e s)) = config s"
proof (cases "obtain_pooled e s")
  case (Inl out)
  then show ?thesis
    using inv obtain_pooled_Inl [OF Inl] by (simp add: acquire_def)
next
  case (Inr ps)
  obtain p1 s1 where ps: "ps = (p1, s1)" by (cases ps)
  have o: "obtain_pooled e s = Inr (p1, s1)" using Inr ps by simp
  have h1: "counted x 1 s1" and c1: "config s1 = config s"
    using obtain_pooled_Inr [OF inv o] by simp_all
  define r2 where "r2 = (if should_recycle (utcnow e 2) (config s1) p1
                then replace_pooled e 1 3 p1 s1 else Inr (p1, s1))"
  have a2: "acquire e s =
     (case r2 of
        Inl out \<Rightarrow> out
      | Inr (pooled, s2) \<Rightarrow>
         (case (if \<not> is_connection_healthy e (connection pooled)
                then replace_pooled e 2 5 pooled s2 else Inr (pooled, s2)) of
            Inl out \<Rightarrow> out
          | Inr (pooled, s3) \<Rightarrow>
              Returned
                (s3\<lparr> checked_out := checked_out s3 @
                       [pooled\<lparr> last_used_at := utcnow e 7,
                                use_count := use_count pooled + 1 \<rparr>] \<rparr>)))"
    unfolding acquire_def o r2_def by (simp only: sum.case prod.case)
  have st2: "case r2 of
           Inl out \<Rightarrow> counted x 0 (state_of out) \<and> config (state_of out) = config s1
         | Inr ps \<Rightarrow> counted x 1 (snd ps) \<and> config (snd ps) = config s1"
    unfolding r2_def by (rule stage_counted [OF h1])
  show ?thesis
  proof (cases r2)
    case (Inl out)
    then show ?thesis using st2 c1 by (simp add: a2)
  next
    case (Inr ps2)
    obtain p2 s2 where ps2: "ps2 = (p2, s2)" by (cases ps2)
    have r2: "r2 = Inr (p2, s2)" using Inr ps2 by simp
    have h2: "counted x 1 s2" and c2: "config s2 = config s"
      using st2 r2 c1 by simp_all
    define r3 where "r3 = (if \<not> is_connection_healthy e (connection p2)
                    then replace_pooled e 2 5 p2 s2 else Inr (p2, s2))"
    have a3: "acquire e s =
       (case r3 of
          Inl out \<Rightarrow> out
        | Inr (pooled, s3) \<Rightarrow>
            Returned
              (s3\<lparr> checked_out := checked_out s3 @
                     [pooled\<lparr> last_used_at := utcnow e 7,
                              use_count := use_count pooled + 1 \<rparr>] \<rparr>))"
      unfolding a2 r2 r3_def by (simp only: sum.case prod.case)
    have st3: "case r3 of
           Inl out \<Rightarrow> counted x 0 (state_of out) \<and> config (state_of out) = config s2
         | Inr ps \<Rightarrow> counted x 1 (snd ps) \<and> config (snd ps) = config s2"
      unfolding r3_def by (rule stage_counted [OF h2])
    show ?thesis
    proof (cases r3)
      case (Inl out)
      then show ?thesis using st3 c2 by (simp add: a3)
    next
      case (Inr ps3)
      obtain p3 s3 where ps3: "ps3 = (p3, s3)" by (cases ps3)
      have r3: "r3 = Inr (p3, s3)" using Inr ps3 by simp
      have h3: "counted x 1 s3" and c3: "config s3 = config s"
        using st3 r3 c2 by simp_all
      show ?thesis
        using checked_out_append_counted [OF h3] c3 by (simp add: a3 r3)
    qed
  qed
qed

lemma release_step_counted:
  assumes inv: "counted x 0 s"
  shows "counted x 0 (state_of (step (Release i) s)) \<and>
         config (state_of (step (Release i) s)) = config s"
proof (cases "i < length (checked_out s)")
  case False
  then show ?thesis using inv by simp
next
  case True
  let ?s' = "s\<lparr> checked_out := take i (checked_out s) @ drop (Suc i) (checked_out s) \<rparr>"
  have len: "length (take i (checked_out s) @ drop (Suc i) (checked_out s)) + 1 =
               length (checked_out s)"
    using True by simp
  have "counted x 1 ?s'"
    using inv len by (auto simp: counted_def)
  from release_counted [OF this] show ?thesis using True by simp
qed

lemma close_counted:
  "checked_out s = [] \<Longrightarrow> 1 \<le> max_size (config s) \<Longrightarrow>
   counted x 0 (state_of (close s)) \<and> config (state_of (close s)) = config s"
  by (auto simp: close_def counted_def)

lemma initialize_loop_counted:
  "counted x 0 s \<Longrightarrow> checked_out s = [] \<Longrightarrow> 1 \<le> max_size (config s) \<Longrightarrow>
   counted x 0 (state_of (initialize_loop e n i s)) \<and>
   config (state_of (initialize_loop e n i s)) = config s \<and>
   checked_out (state_of (initialize_loop e n i s)) = []"
proof (induction n arbitrary: i s)
  case 0
  then show ?case by simp
next
  case (Suc n)
  show ?case
  proof (cases "create_connection e i")
    case None
    then show ?thesis using Suc.prems by simp
  next
    case (Some c)
    show ?thesis
    proof (cases "queue_full s")
      case True
      then show ?thesis using Suc.prems Some by simp
    next
      case False
      let ?s' = "s\<lparr> pool_queue := pool_queue s @
                      [new_pooled c (utcnow e (2 * i)) (utcnow e (2 * i + 1))],
                    active_connections := active_connections s + 1 \<rparr>"
      have inv': "counted x 0 ?s'"
        using Suc.prems False by (auto simp: counted_def queue_full_def split: if_splits)
      have "counted x 0 (state_of (initialize_loop e n (Suc i) ?s')) \<and>
            config (state_of (initialize_loop e n (Suc i) ?s')) = config ?s' \<and>
            checked_out (state_of (initialize_loop e n (Suc i) ?s')) = []"
        by (rule Suc.IH [OF inv']) (use Suc.prems in simp_all)
      then show ?thesis using Some False by (simp add: Let_def)
    qed
  qed
qed

lemma initialize_counted:
  assumes "counted x 0 s" "checked_out s = []" "1 \<le> max_size (config s)"
  shows "counted x 0 (state_of (initialize e s)) \<and>
         config (state_of (initialize e s)) = config s"
proof -
  let ?r = "initialize_loop e (nat (min_size (config s))) 0 s"
  have l: "counted x 0 (state_of ?r)" and c: "config (state_of ?r) = config s"
    using initialize_loop_counted [OF assms, of e "nat (min_size (config s))" 0] by simp_all
  show ?thesis
  proof (cases "info_enabled e")
    case True
    then show ?thesis using assms(1) by (simp add: initialize_def)
  next
    case False
    show ?thesis
    proof (cases ?r)
      case (Returned s')
      then have "counted x 0 s'" "config s' = config s" using l c by simp_all
      then show ?thesis using Returned False by (auto simp: initialize_def counted_def)
    next
      case (Raised err s')
      then show ?thesis using l c False by (simp add: initialize_def)
    next
      case (Blocked s')
      then show ?thesis using l c False by (simp add: initialize_def)
    qed
  qed
qed

lemma health_check_loop_counted:
  "counted False 0 s \<Longrightarrow>
   counted False 0 (health_check_loop e n k s) \<and> config (health_check_loop e n k s) = config s"
proof (induction n arbitrary: k s)
  case 0
  then show ?case by simp
next
  case (Suc n)
  show ?case
  proof (cases "pool_queue s")
    case Nil
    then show ?thesis using Suc.prems by simp
  next
    case (Cons pooled rest)
    show ?thesis
    proof (cases "is_connection_healthy e (connection pooled)")
      case True
      have "counted False 0 (s\<lparr> pool_queue := rest @ [pooled] \<rparr>)"
        using Suc.prems Cons by (auto simp: counted_def)
      from Suc.IH [OF this] show ?thesis using Cons True by simp
    next
      case False
      let ?s' = "s\<lparr> pool_queue := rest, closed_log := closed_log s @ [connection pooled] \<rparr>"
      show ?thesis
      proof (cases "create_connection e k")
        case None
        have "counted False 0 ?s'"
          using Suc.prems Cons by (auto simp: counted_def)
        then show ?thesis using Cons False None by (simp add: Let_def)
      next
        case (Some c)
        have "counted False 0
                (?s'\<lparr> pool_queue := rest @
                        [new_pooled c (utcnow e (2 * k)) (utcnow e (2 * k + 1))] \<rparr>)"
          using Suc.prems Cons by (auto simp: counted_def)
        from Suc.IH [OF this] show ?thesis using Cons False Some by (simp add: Let_def)
      qed
    qed
  qed
qed

lemma step_counted:
  assumes "counted x 0 s" "1 \<le> max_size (config s)" "allowed y s"
      and "x \<Longrightarrow> \<not> is_health_check y"
  shows "counted x 0 (state_of (step y s)) \<and> config (state_of (step y s)) = config s"
proof (cases y)
  case (Initialize e)
  then show ?thesis using initialize_counted [of x s e] assms by simp
next
  case (Acquire e)
  then show ?thesis using acquire_counted [OF assms(1), of e] by simp
next
  case (Release i)
  then show ?thesis using release_step_counted [OF assms(1), of i] by simp
next
  case Shutdown
  then show ?thesis using close_counted [of s] assms by simp
next
  case (HealthCheck e)
  then have "\<not> x" using assms(4) by auto
  then show ?thesis
    using HealthCheck assms(1) health_check_loop_counted [of s e "length (pool_queue s)" 0]
    by (simp add: health_check_pass_def)
qed

lemma run_counted:
  "counted x 0 s \<Longrightarrow> 1 \<le> max_size (config s) \<Longrightarrow> disciplined ops s \<Longrightarrow>
   (x \<Longrightarrow> \<not> list_ex is_health_check ops) \<Longrightarrow>
   counted x 0 (run ops s) \<and> config (run ops s) = config s"
proof (induction ops arbitrary: s)
  case Nil
  then show ?case by simp
next
  case (Cons y ys)
  have a: "allowed y s" using Cons.prems(3) by simp
  have nh: "x \<Longrightarrow> \<not> is_health_check y" and nhs: "x \<Longrightarrow> \<not> list_ex is_health_check ys"
    using Cons.prems(4) by simp_all
  have st: "counted x 0 (state_of (step y s)) \<and> config (state_of (step y s)) = config s"
    by (rule step_counted [OF Cons.prems(1) Cons.prems(2) a nh])
  show ?case
  proof (cases "step y s")
    case (Returned s')
    then have "disciplined ys s'" using Cons.prems(3) by simp
    moreover have "counted x 0 s'" "1 \<le> max_size (config s')"
      using st Returned Cons.prems(2) by simp_all
    ultimately show ?thesis using Cons.IH [of s'] nhs st Returned by simp
  next
    case (Raised err s')
    then have "disciplined ys s'" using Cons.prems(3) by simp
    moreover have "counted x 0 s'" "1 \<le> max_size (config s')"
      using st Raised Cons.prems(2) by simp_all
    ultimately show ?thesis using Cons.IH [of s'] nhs st Raised by simp
  next
    case (Blocked s')
    then show ?thesis using st by simp
  qed
qed

lemma disciplined_prefix: "disciplined (xs @ ys) s \<Longrightarrow> disciplined xs s"
  by (induction xs arbitrary: s) (auto split: outcome.splits)

lemma initialize_loop_numeral:
  "initialize_loop e (numeral v) i s = initialize_loop e (Suc (pred_numeral v)) i s"
  by (simp add: numeral_eq_Suc)

lemmas pool_eval =
  initialize_loop_numeral ConnectionPoolManager_init_def small_config_def steady_env_def failing_env_def
  initialize_def acquire_def obtain_pooled_def replace_pooled_def should_recycle_def
  new_pooled_def queue_full_def close_def release_def health_check_pass_def broken_env_def

lemma fresh_pool_counted:
  "0 \<le> max_size cfg \<Longrightarrow> counted x 0 (ConnectionPoolManager_init cfg)"
  by (auto simp: counted_def ConnectionPoolManager_init_def)

lemma PoolConfig_init_Inr:
  "PoolConfig_init mn mx idle tmo hc rc = Inr cfg \<Longrightarrow>
   min_size cfg = mn \<and> max_size cfg = mx \<and> 1 \<le> mn \<and> mn \<le> 10 \<and> 1 \<le> mx \<and> mx \<le> 50"
  by (auto simp: PoolConfig_init_def split: if_splits)

lemma initialize_loop_fails:
  assumes "create_connection e (i + m) = None"
      and "\<forall>j<m. create_connection e (i + j) = Some (c (i + j))"
      and "m < n"
      and "max_size (config s) \<le> 0 \<or>
           int (length (pool_queue s)) + int m \<le> max_size (config s)"
  shows "initialize_loop e n i s =
           Raised ConnectionFailed
             (s\<lparr> pool_queue := pool_queue s @
                     map (\<lambda>j. new_pooled (c j) (utcnow e (2 * j)) (utcnow e (2 * j + 1)))
                       [i..<i + m],
                  active_connections := active_connections s + int m \<rparr>)"
  using assms
proof (induction m arbitrary: n i s)
  case 0
  then obtain n' where n: "n = Suc n'" by (cases n) auto
  show ?case using 0 by (simp add: n)
next
  case (Suc m)
  then obtain n' where n: "n = Suc n'" by (cases n) auto
  have here: "create_connection e i = Some (c i)"
    using Suc.prems(2) by (metis add.right_neutral zero_less_Suc)
  have room: "\<not> queue_full s"
    using Suc.prems(4) by (auto simp: queue_full_def)
  let ?s' = "s\<lparr> pool_queue := pool_queue s @
                  [new_pooled (c i) (utcnow e (2 * i)) (utcnow e (2 * i + 1))],
                active_connections := active_connections s + 1 \<rparr>"
  have 1: "create_connection e (Suc i + m) = None"
    using Suc.prems(1) by simp
  have 2: "\<forall>j<m. create_connection e (Suc i + j) = Some (c (Suc i + j))"
    using Suc.prems(2) by (metis Suc_less_eq add_Suc_shift)
  have 3: "m < n'"
    using Suc.prems(3) n by simp
  have 4: "max_size (config ?s') \<le> 0 \<or>
           int (length (pool_queue ?s')) + int m \<le> max_size (config ?s')"
    using Suc.prems(4) by auto
  have step: "initialize_loop e n i s = initialize_loop e n' (Suc i) ?s'"
    using here room by (simp add: n Let_def)
  have rest: "initialize_loop e n' (Suc i) ?s' =
           Raised ConnectionFailed
             (?s'\<lparr> pool_queue := pool_queue ?s' @
                     map (\<lambda>j. new_pooled (c j) (utcnow e (2 * j)) (utcnow e (2 * j + 1)))
                       [Suc i..<Suc i + m],
                  active_connections := active_connections ?s' + int m \<rparr>)"
    by (rule Suc.IH [OF 1 2 3 4])
  show ?case
    unfolding step rest
    by (simp add: upt_conv_Cons del: upt_Suc)
qed

text \<open>
  C8 as the claim states it: no configuration with \<open>min_size\<close> above \<open>max_size\<close> would be
  accepted. The two fields are validated one by one, and \<open>PoolConfig(min_size=2,
  max_size=1)\<close>, which the adapters build for a \<open>pool_size\<close> of 1, passes.
\<close>

theorem pool_config_counterexample:
  "PoolConfig_init 2 1 300 30 60 3600 = Inr (small_config 2 1)
   \<and> \<not> min_size (small_config 2 1) \<le> max_size (small_config 2 1)"
  by (simp add: PoolConfig_init_def small_config_def)

text \<open>
  C8, amended: every accepted configuration has \<open>1 \<le> min_size \<le> 10\<close> and
  \<open>1 \<le> max_size \<le> 50\<close>, and every such pair of sizes is accepted; so
  \<open>min_size \<le> max_size\<close> is certain only when \<open>max_size\<close> is at least 10.
\<close>

theorem pool_config_ranges:
  "(PoolConfig_init mn mx idle tmo hc rc = Inr cfg \<longrightarrow>
      min_size cfg = mn \<and> max_size cfg = mx \<and>
      1 \<le> min_size cfg \<and> min_size cfg \<le> 10 \<and> 1 \<le> max_size cfg \<and> max_size cfg \<le> 50 \<and>
      (10 \<le> max_size cfg \<longrightarrow> min_size cfg \<le> max_size cfg))
   \<and> (1 \<le> mn \<and> mn \<le> 10 \<and> 1 \<le> mx \<and> mx \<le> 50 \<longrightarrow>
        PoolConfig_init mn mx idle tmo hc rc \<noteq> Inl ValidationError)"
  by (auto simp: PoolConfig_init_def)

theorem pool_config_ranges_witness:
  "PoolConfig_init 2 10 300 30 60 3600 = Inr (small_config 2 10)
   \<and> min_size (small_config 2 10) \<le> max_size (small_config 2 10)
   \<and> PoolConfig_init 2 10 300 30 60 3600 \<noteq> Inl ValidationError"
proof -
  note a = pool_config_ranges
    [where mn = 2 and mx = 10 and idle = 300 and tmo = 30 and hc = 60 and rc = 3600
       and cfg = "small_config 2 10"]
  have 0: "PoolConfig_init 2 10 300 30 60 3600 = Inr (small_config 2 10)"
    by (simp add: PoolConfig_init_def small_config_def)
  have 1: "min_size (small_config 2 10) \<le> max_size (small_config 2 10)"
    using a [THEN conjunct1, THEN mp, OF 0] by simp
  have 2: "PoolConfig_init 2 10 300 30 60 3600 \<noteq> Inl ValidationError"
    by (rule a [THEN conjunct2, THEN mp]) simp
  show ?thesis using 0 1 2 by blast
qed

text \<open>
  C1 as the claim states it: after every sequence of operations the idle and the
  checked-out wrappers together are at most \<open>max_size\<close>. With \<open>min_size = 1\<close> and
  \<open>max_size = 2\<close>: \<open>close\<close> sets the counter to 0 while a wrapper is checked out, and two
  more acquisitions then create two connections, so three wrappers are out, none of
  them closed; and a second \<open>initialize\<close> while two wrappers are out adds a third
  connection and raises the counter to 3.
\<close>

theorem pool_bound_counterexample:
  "PoolConfig_init 1 2 300 30 60 3600 = Inr (small_config 1 2)
   \<and> \<not> int (length (pool_queue
              (run shutdown_then_overflow (ConnectionPoolManager_init (small_config 1 2)))) +
            length (checked_out
              (run shutdown_then_overflow (ConnectionPoolManager_init (small_config 1 2)))))
        \<le> max_size (small_config 1 2)
   \<and> map connection (checked_out
         (run shutdown_then_overflow (ConnectionPoolManager_init (small_config 1 2)))) =
       [0, 20, 30]
   \<and> closed_log (run shutdown_then_overflow (ConnectionPoolManager_init (small_config 1 2))) = []
   \<and> \<not> int (length (pool_queue
              (run initialize_twice (ConnectionPoolManager_init (small_config 1 2)))) +
            length (checked_out
              (run initialize_twice (ConnectionPoolManager_init (small_config 1 2)))))
        \<le> max_size (small_config 1 2)
   \<and> active_connections
         (run initialize_twice (ConnectionPoolManager_init (small_config 1 2))) = 3"
  by (simp add: shutdown_then_overflow_def initialize_twice_def PoolConfig_init_def pool_eval)

text \<open>
  C1, amended: from a freshly constructed pool with an accepted configuration, after
  every sequence of \<open>Initialize\<close>, \<open>Acquire\<close>, \<open>Release\<close> and \<open>Shutdown\<close>, with passes of
  the health check anywhere between them, in which \<open>Initialize\<close> and \<open>Shutdown\<close> are
  applied only while no wrapper is checked out, the idle and the checked-out wrappers
  together are at most \<open>max_size\<close> and at most the counter of live connections; the
  overflow path of \<open>Acquire\<close> is included. Without health-check passes they are as many
  as the counter says, so the counter is at most \<open>max_size\<close> too. Every beginning of such
  a sequence is such a sequence (\<open>disciplined_prefix\<close>), so this holds in every state on
  the way.
\<close>

theorem pool_bound_disciplined:
  assumes "PoolConfig_init mn mx idle tmo hc rc = Inr cfg"
      and "disciplined ops (ConnectionPoolManager_init cfg)"
  shows "int (length (pool_queue (run ops (ConnectionPoolManager_init cfg)))) +
         int (length (checked_out (run ops (ConnectionPoolManager_init cfg)))) \<le> max_size cfg
         \<and> int (length (pool_queue (run ops (ConnectionPoolManager_init cfg)))) +
           int (length (checked_out (run ops (ConnectionPoolManager_init cfg))))
             \<le> active_connections (run ops (ConnectionPoolManager_init cfg))
         \<and> (\<not> list_ex is_health_check ops \<longrightarrow>
              int (length (pool_queue (run ops (ConnectionPoolManager_init cfg)))) +
              int (length (checked_out (run ops (ConnectionPoolManager_init cfg)))) =
                active_connections (run ops (ConnectionPoolManager_init cfg))
              \<and> active_connections (run ops (ConnectionPoolManager_init cfg)) \<le> max_size cfg)"
proof -
  let ?s0 = "ConnectionPoolManager_init cfg"
  have mx: "1 \<le> max_size cfg"
    using PoolConfig_init_Inr [OF assms(1)] by simp
  have c0: "config ?s0 = cfg"
    by (simp add: ConnectionPoolManager_init_def)
  have any: "counted False 0 (run ops ?s0) \<and> config (run ops ?s0) = config ?s0"
    by (rule run_counted [OF fresh_pool_counted _ assms(2)]) (use mx c0 in simp_all)
  have exact: "counted True 0 (run ops ?s0) \<and> config (run ops ?s0) = config ?s0"
    if "\<not> list_ex is_health_check ops"
    by (rule run_counted [OF fresh_pool_counted _ assms(2)]) (use mx c0 that in simp_all)
  show ?thesis
    using any exact by (auto simp: counted_def c0)
qed

theorem pool_bound_disciplined_witness:
  "PoolConfig_init 1 2 300 30 60 3600 = Inr (small_config 1 2)
   \<and> disciplined overflow_trace (ConnectionPoolManager_init (small_config 1 2))
   \<and> map connection (checked_out
        (run overflow_trace (ConnectionPoolManager_init (small_config 1 2)))) = [0, 20]
   \<and> int (length (pool_queue (run overflow_trace (ConnectionPoolManager_init (small_config 1 2))))) +
     int (length (checked_out (run overflow_trace (ConnectionPoolManager_init (small_config 1 2))))) =
       active_connections (run overflow_trace (ConnectionPoolManager_init (small_config 1 2)))
   \<and> active_connections (run overflow_trace (ConnectionPoolManager_init (small_config 1 2)))
       \<le> max_size (small_config 1 2)
   \<and> disciplined audited_trace (ConnectionPoolManager_init (small_config 1 2))
   \<and> map connection (checked_out
        (run audited_trace (ConnectionPoolManager_init (small_config 1 2)))) = [10]
   \<and> closed_log (run audited_trace (ConnectionPoolManager_init (small_config 1 2))) = [0]
   \<and> int (length (pool_queue (run audited_trace (ConnectionPoolManager_init (small_config 1 2))))) +
     int (length (checked_out (run audited_trace (ConnectionPoolManager_init (small_config 1 2)))))
       \<le> max_size (small_config 1 2)"
proof -
  have 0: "PoolConfig_init 1 2 300 30 60 3600 = Inr (small_config 1 2)"
    by (simp add: PoolConfig_init_def small_config_def)
  have 1: "disciplined overflow_trace (ConnectionPoolManager_init (small_config 1 2))"
    by (simp add: overflow_trace_def pool_eval)
  have 2: "map connection (checked_out
        (run overflow_trace (ConnectionPoolManager_init (small_config 1 2)))) = [0, 20]"
    by (simp add: overflow_trace_def pool_eval)
  have 3: "\<not> list_ex is_health_check overflow_trace"
    by (simp add: overflow_trace_def)
  have 4: "disciplined audited_trace (ConnectionPoolManager_init (small_config 1 2))"
    by (simp add: audited_trace_def pool_eval)
  have 5: "map connection (checked_out
        (run audited_trace (ConnectionPoolManager_init (small_config 1 2)))) = [10]"
       "closed_log (run audited_trace (ConnectionPoolManager_init (small_config 1 2))) = [0]"
    by (simp_all add: audited_trace_def pool_eval)
  show ?thesis
    using pool_bound_disciplined [OF 0 1] pool_bound_disciplined [OF 0 4] 0 1 2 3 4 5
    by blast
qed

text \<open>
  C6 as the claim states it: after a failed creation no connection created earlier in
  the same call would remain open or counted. With \<open>min_size = 2\<close>, when the second
  creation fails the first connection stays in the queue, is not closed, and the
  counter is 1.
\<close>

theorem initialize_failure_counterexample:
  "initialize (failing_env 0 1) (ConnectionPoolManager_init (small_config 2 2)) =
     Raised ConnectionFailed
       ((ConnectionPoolManager_init (small_config 2 2))
          \<lparr> pool_queue := [new_pooled 0 0 0], active_connections := 1 \<rparr>)
   \<and> closed_log (state_of
         (initialize (failing_env 0 1) (ConnectionPoolManager_init (small_config 2 2)))) = []
   \<and> active_connections (state_of
         (initialize (failing_env 0 1) (ConnectionPoolManager_init (small_config 2 2)))) \<noteq> 0"
  by (simp add: pool_eval)

text \<open>
  C6, amended: when the creation number \<open>k\<close> (counted from 0) of \<open>initialize\<close> on a fresh
  pool fails, the factory error propagates and no health-check task is started; the
  \<open>k\<close> connections created before it stay in the idle queue, none of them is closed,
  and the counter of live connections is \<open>k\<close>. (The logger is not enabled for \<open>INFO\<close>,
  or else \<open>initialize\<close> raises before the first creation.)
\<close>

theorem initialize_failure_partial_pool:
  assumes "PoolConfig_init mn mx idle tmo hc rc = Inr cfg"
      and "int k < min_size cfg" and "int k \<le> max_size cfg"
      and "create_connection e k = None"
      and "map (create_connection e) [0..<k] = map Some cs"
      and "\<not> info_enabled e"
  shows "initialize e (ConnectionPoolManager_init cfg) =
           Raised ConnectionFailed
             ((ConnectionPoolManager_init cfg)
                \<lparr> pool_queue :=
                    map (\<lambda>j. new_pooled (cs ! j) (utcnow e (2 * j)) (utcnow e (2 * j + 1)))
                      [0..<k],
                  active_connections := int k \<rparr>)
         \<and> health_check_task (state_of (initialize e (ConnectionPoolManager_init cfg))) = None
         \<and> closed_log (state_of (initialize e (ConnectionPoolManager_init cfg))) = []
         \<and> map connection
              (pool_queue (state_of (initialize e (ConnectionPoolManager_init cfg)))) = cs"
proof -
  let ?s0 = "ConnectionPoolManager_init cfg"
  have len: "length cs = k"
    using assms(5) by (metis length_map length_upt minus_nat.diff_0)
  have each: "\<forall>j<k. create_connection e (0 + j) = Some (cs ! (0 + j))"
  proof (intro allI impI)
    fix j assume j: "j < k"
    have "map (create_connection e) [0..<k] ! j = map Some cs ! j"
      using assms(5) by simp
    then show "create_connection e (0 + j) = Some (cs ! (0 + j))"
      using j len by simp
  qed
  have loop: "initialize_loop e (nat (min_size cfg)) 0 ?s0 =
           Raised ConnectionFailed
             (?s0\<lparr> pool_queue := pool_queue ?s0 @
                     map (\<lambda>j. new_pooled (cs ! j) (utcnow e (2 * j)) (utcnow e (2 * j + 1)))
                       [0..<0 + k],
                  active_connections := active_connections ?s0 + int k \<rparr>)"
    by (rule initialize_loop_fails [where c = "\<lambda>j. cs ! j"])
       (use assms each in \<open>simp_all add: ConnectionPoolManager_init_def\<close>)
  have res: "initialize e ?s0 =
           Raised ConnectionFailed
             (?s0\<lparr> pool_queue :=
                    map (\<lambda>j. new_pooled (cs ! j) (utcnow e (2 * j)) (utcnow e (2 * j + 1)))
                      [0..<k],
                  active_connections := int k \<rparr>)"
    using loop assms(6) by (simp add: initialize_def ConnectionPoolManager_init_def)
  have conns: "map (\<lambda>j. cs ! j) [0..<k] = cs"
    using map_nth [of cs] by (simp add: len)
  show ?thesis
    unfolding res
    by (simp add: ConnectionPoolManager_init_def new_pooled_def comp_def conns)
qed

theorem initialize_failure_partial_pool_witness:
  "initialize (failing_env 7 2) (ConnectionPoolManager_init (small_config 3 5)) =
     Raised ConnectionFailed
       ((ConnectionPoolManager_init (small_config 3 5))
          \<lparr> pool_queue := [new_pooled 7 0 0, new_pooled 8 0 0], active_connections := 2 \<rparr>)
   \<and> health_check_task (state_of
        (initialize (failing_env 7 2) (ConnectionPoolManager_init (small_config 3 5)))) = None
   \<and> closed_log (state_of
        (initialize (failing_env 7 2) (ConnectionPoolManager_init (small_config 3 5)))) = []
   \<and> map connection (pool_queue (state_of
        (initialize (failing_env 7 2) (ConnectionPoolManager_init (small_config 3 5))))) = [7, 8]"
proof -
  have 0: "PoolConfig_init 3 5 300 30 60 3600 = Inr (small_config 3 5)"
    by (simp add: PoolConfig_init_def small_config_def)
  have 1: "int 2 < min_size (small_config 3 5)" "int 2 \<le> max_size (small_config 3 5)"
    by (simp_all add: small_config_def)
  have 2: "create_connection (failing_env 7 2) 2 = None"
    by (simp add: failing_env_def)
  have 3: "map (create_connection (failing_env 7 2)) [0..<2] = map Some [7, 8]"
    by (simp add: failing_env_def upt_conv_Cons)
  have 4: "map (\<lambda>j. new_pooled ([7, 8] ! j) (utcnow (failing_env 7 2) (2 * j))
                     (utcnow (failing_env 7 2) (2 * j + 1))) [0..<2] =
           [new_pooled 7 0 0, new_pooled 8 0 0]"
    by (simp add: failing_env_def upt_conv_Cons)
  have 5: "\<not> info_enabled (failing_env 7 2)"
    by (simp add: failing_env_def)
  note t = initialize_failure_partial_pool [OF 0 1 2 3 5]
  have r: "initialize (failing_env 7 2) (ConnectionPoolManager_init (small_config 3 5)) =
     Raised ConnectionFailed
       ((ConnectionPoolManager_init (small_config 3 5))
          \<lparr> pool_queue := [new_pooled 7 0 0, new_pooled 8 0 0], active_connections := 2 \<rparr>)"
    using t [THEN conjunct1] unfolding 4 by simp
  show ?thesis
    unfolding r
    by (simp add: ConnectionPoolManager_init_def new_pooled_def)
qed

text \<open>
  C7 as the claim states it: a wrapper released after \<open>close\<close> has completed would be
  closed and not queued. Connection 0 is checked out when \<open>close\<close> runs; released
  afterwards, it is in the idle queue and \<open>_close_connection\<close> was never called on it.
\<close>

theorem release_after_close_counterexample:
  "map connection (checked_out
     (run (take 3 release_after_shutdown) (ConnectionPoolManager_init (small_config 1 2)))) = [0]
   \<and> map connection (pool_queue
       (run release_after_shutdown (ConnectionPoolManager_init (small_config 1 2)))) = [0]
   \<and> 0 \<notin> set (closed_log
       (run release_after_shutdown (ConnectionPoolManager_init (small_config 1 2))))"
  by (simp add: release_after_shutdown_def pool_eval)

text \<open>
  C7, amended: the pool has no closing mark. When \<open>close\<close> has completed while a wrapper
  is checked out and the wrapper is released afterwards, it is put into the idle queue,
  which \<open>close\<close> left empty, and is its only element; \<open>_close_connection\<close> is not called on
  it (\<open>close\<close> called it on the wrappers that were idle), and the counter of live
  connections stays 0.
\<close>

theorem release_after_close_requeues:
  assumes "i < length (checked_out s)"
  shows "step (Release i) (state_of (step Shutdown s)) =
           Returned
             (s\<lparr> health_check_task := map_option (\<lambda>_. Cancelled) (health_check_task s),
                  closed_log := closed_log s @ map connection (pool_queue s),
                  pool_queue := [checked_out s ! i],
                  active_connections := 0,
                  checked_out := take i (checked_out s) @ drop (Suc i) (checked_out s) \<rparr>)"
  using assms by (simp add: close_def release_def queue_full_def)

theorem release_after_close_requeues_witness:
  "step (Release 0) (state_of (step Shutdown
       (run (take 2 release_after_shutdown) (ConnectionPoolManager_init (small_config 1 2))))) =
     Returned
       ((ConnectionPoolManager_init (small_config 1 2))
          \<lparr> health_check_task := Some Cancelled,
            pool_queue := [new_pooled 0 0 0 \<lparr> use_count := 1 \<rparr>] \<rparr>)"
proof -
  let ?s = "run (take 2 release_after_shutdown) (ConnectionPoolManager_init (small_config 1 2))"
  have s: "?s = (ConnectionPoolManager_init (small_config 1 2))
                  \<lparr> health_check_task := Some Running, active_connections := 1,
                    checked_out := [new_pooled 0 0 0 \<lparr> use_count := 1 \<rparr>] \<rparr>"
    by (simp add: release_after_shutdown_def pool_eval)
  have i: "0 < length (checked_out ?s)"
    by (simp add: s)
  note t = release_after_close_requeues [OF i]
  have u: "Returned
             (?s\<lparr> health_check_task := map_option (\<lambda>_. Cancelled) (health_check_task ?s),
                  closed_log := closed_log ?s @ map connection (pool_queue ?s),
                  pool_queue := [checked_out ?s ! 0],
                  active_connections := 0,
                  checked_out := take 0 (checked_out ?s) @ drop (Suc 0) (checked_out ?s) \<rparr>) =
           Returned
             ((ConnectionPoolManager_init (small_config 1 2))
                \<lparr> health_check_task := Some Cancelled,
                  pool_queue := [new_pooled 0 0 0 \<lparr> use_count := 1 \<rparr>] \<rparr>)"
    unfolding s by (simp add: ConnectionPoolManager_init_def new_pooled_def)
  show ?thesis
    by (rule trans [OF t u])
qed

end
